theory Spec2Isabelle
  imports Complex_Main
begin

text \<open>
  A model of the view counter's single source file: the proxy pools and the registry of
  used proxies, the two source fetchers, the retry loop around one page visit, and the
  sequential and the concurrent dispatcher. Module-level variables are a record that
  every function takes and returns; a thrown error is the left summand of the result;
  the network, the Proxifly API, \<^verbatim>\<open>Math.random\<close> and the browser are oracles, and
  every use of one is written to a trace in the state.
\<close>

section \<open>Strings and errors\<close>

text \<open>
  JavaScript strings are modelled as \<open>string\<close>: a \<open>char\<close> is a code unit below 256,
  which covers the ASCII text of the proxy listings and of every message of the file.
  \<open>includes_js\<close> is \<^verbatim>\<open>String.prototype.includes\<close>, \<open>show_nat\<close> is the decimal
  rendering a template literal gives an integer, \<open>parseLines\<close> is
  \<^verbatim>\<open>data.split('\n').map(line => line.trim()).filter(line => line.length > 0)\<close>.
  \<open>isSpace\<close> holds of the white space and line terminators that
  \<^verbatim>\<open>String.prototype.trim\<close> strips, as far as they are code units below 256: tab,
  line feed, vertical tab, form feed, carriage return, space and the no-break space.
\<close>

definition startsWith :: "string \<Rightarrow> string \<Rightarrow> bool" where
  "startsWith s sub = (take (length sub) s = sub)"

fun includes_js :: "string \<Rightarrow> string \<Rightarrow> bool" where
  "includes_js [] sub = (sub = [])"
| "includes_js (c # cs) sub = (startsWith (c # cs) sub \<or> includes_js cs sub)"

definition digit_char :: "nat \<Rightarrow> char" where
  "digit_char d = ''0123456789'' ! d"

function show_nat :: "nat \<Rightarrow> string" where
  "show_nat n = (if n < 10 then [digit_char n] else show_nat (n div 10) @ [digit_char (n mod 10)])"
  by pat_completeness auto
termination
  by (relation "measure id") auto

declare show_nat.simps [simp del]

fun splitOn :: "char \<Rightarrow> string \<Rightarrow> string list" where
  "splitOn c [] = [[]]"
| "splitOn c (x # xs) =
     (if x = c then [] # splitOn c xs
      else (case splitOn c xs of [] \<Rightarrow> [[x]] | w # ws \<Rightarrow> (x # w) # ws))"

definition isSpace :: "char \<Rightarrow> bool" where
  "isSpace c = (c \<in> set [CHR 0x09, CHR 0x0A, CHR 0x0B, CHR 0x0C, CHR 0x0D, CHR 0x20, CHR 0xA0])"

definition trim :: "string \<Rightarrow> string" where
  "trim s = rev (dropWhile isSpace (rev (dropWhile isSpace s)))"

definition parseLines :: "string \<Rightarrow> string list" where
  "parseLines data = filter (\<lambda>line. line \<noteq> []) (map trim (splitOn CHR 0x0A data))"

text \<open>
  A thrown JavaScript error: its \<open>name\<close> and its \<open>message\<close>. Every \<^verbatim>\<open>throw\<close> of
  the file throws \<^verbatim>\<open>new Error(...)\<close>, and the libraries it calls reject with
  \<^verbatim>\<open>Error\<close> objects, so every thrown value has a message that is a string.
\<close>

record jsError =
  name :: string
  message :: string

definition Error :: "string \<Rightarrow> jsError" where
  "Error m = \<lparr>name = ''Error'', message = m\<rparr>"

definition TypeError :: "string \<Rightarrow> jsError" where
  "TypeError m = \<lparr>name = ''TypeError'', message = m\<rparr>"

section \<open>Configuration and data model\<close>

datatype proxyMode = ModeNone | ModeDirect | ModeProxifly | ModeFreeProxyList

text \<open>
  A proxy object: the properties the file reads, where one that is absent (or falsy) in
  the JavaScript object is the empty string, and \<open>json\<close>, the text that
  \<^verbatim>\<open>JSON.stringify\<close> gives for the whole object, with whatever other properties it
  has.
\<close>

record proxy =
  ipPort :: string
  ip :: string
  port :: string
  protocol :: string
  source :: string
  json :: string

record proxySource =
  url :: string
  sourceProtocol :: string
  priority :: nat

text \<open>
  The \<^verbatim>\<open>CONFIG\<close> object, taken as a parameter. \<open>configProxyMode\<close> is the literal
  written in the file; the mutable \<^verbatim>\<open>CONFIG.proxyMode\<close> of a running module instance
  is the field \<open>proxyMode\<close> of its state below.
\<close>

record config =
  maxRetries :: nat
  backoffDelays :: "nat list"
  maxConcurrent :: nat
  totalRequests :: nat
  configProxyMode :: proxyMode
  directProtocol :: string
  directHost :: string
  directPort :: string
  proxiflyApiKey :: string
  proxiflyProtocol :: string
  proxiflyRotateProxies :: bool
  freeSources :: "proxySource list"
  freeRotateProxies :: bool

definition MAX_FETCH_ATTEMPTS :: nat where
  "MAX_FETCH_ATTEMPTS = 5"

text \<open>
  What a module instance does to the outside world, in order. \<open>Acquired\<close> marks the
  pool manager handing a record to its caller.
\<close>

datatype event =
    NetGet string
  | ApiCall
  | Random
  | Acquired proxy
  | Launch "proxy option" "string option"
  | Sleep "nat option"
  | Request nat
  | Spawn nat

datatype apiResponse = ApiArray "proxy list" | ApiObject proxy | ApiOther | ApiThrew jsError

text \<open>
  The task executor (the browser part of \<^verbatim>\<open>scrapeWithRetry\<close>, lines 560 to 833) is
  opaque but for the status check of lines 641 to 653: a step before the check rejects,
  the navigation gives no response, or it gives a status, after which the rest of the
  visit completes or one of its steps rejects.
\<close>

datatype visit = Threw jsError | NoResponse | Responded nat "jsError option"

text \<open>
  The outside world as oracles. The first argument is the number of interactions the
  module instance has made so far, so that two calls may answer differently.
  \<open>mathRandom\<close> stands for \<^verbatim>\<open>Math.random()\<close>: an index below \<open>n\<close> is
  \<open>mathRandom env t mod n\<close>.
\<close>

record env =
  fetchFromUrl :: "nat \<Rightarrow> string \<Rightarrow> jsError + string"
  getProxy :: "nat \<Rightarrow> apiResponse"
  mathRandom :: "nat \<Rightarrow> nat"
  browse :: "nat \<Rightarrow> string \<Rightarrow> string option \<Rightarrow> visit"

text \<open>The module-level variables of lines 102 to 110, with \<^verbatim>\<open>CONFIG.proxyMode\<close>.\<close>

record globals =
  proxyMode :: proxyMode
  proxiflyProxies :: "proxy list"
  proxiflyCurrentIndex :: nat
  freeProxyList :: "proxy list"
  freeProxyIndex :: nat
  usedProxies :: "string set"
  proxyFetchAttempts :: nat
  currentSourceIndex :: nat
  trace :: "event list"

definition initialGlobals :: "config \<Rightarrow> globals" where
  "initialGlobals cfg =
     \<lparr>proxyMode = configProxyMode cfg, proxiflyProxies = [], proxiflyCurrentIndex = 0,
      freeProxyList = [], freeProxyIndex = 0, usedProxies = {}, proxyFetchAttempts = 0,
      currentSourceIndex = 0, trace = []\<rparr>"

definition emit :: "event \<Rightarrow> globals \<Rightarrow> globals" where
  "emit e s = s\<lparr>trace := trace s @ [e]\<rparr>"

definition now :: "globals \<Rightarrow> nat" where
  "now s = length (trace s)"

section \<open>Proxy identity\<close>

definition quoted :: "string \<Rightarrow> string" where
  "quoted s = [CHR 0x22] @ s @ [CHR 0x22]"

text \<open>
  \<^verbatim>\<open>JSON.stringify\<close> of a string: in quotes, with the quote, the backslash and the
  control characters escaped; and of an object whose properties are strings, the keys in
  the order in which they were written.
\<close>

definition hexDigit :: "nat \<Rightarrow> char" where
  "hexDigit d = ''0123456789abcdef'' ! d"

definition jsonEscape :: "char \<Rightarrow> string" where
  "jsonEscape c =
     (if c = CHR 0x22 then [CHR 0x5C, CHR 0x22]
      else if c = CHR 0x5C then [CHR 0x5C, CHR 0x5C]
      else if c = CHR 0x08 then [CHR 0x5C, CHR ''b'']
      else if c = CHR 0x0C then [CHR 0x5C, CHR ''f'']
      else if c = CHR 0x0A then [CHR 0x5C, CHR ''n'']
      else if c = CHR 0x0D then [CHR 0x5C, CHR ''r'']
      else if c = CHR 0x09 then [CHR 0x5C, CHR ''t'']
      else if (of_char c :: nat) < 32
      then [CHR 0x5C, CHR ''u'', CHR ''0'', CHR ''0'',
            hexDigit ((of_char c :: nat) div 16), hexDigit ((of_char c :: nat) mod 16)]
      else [c])"

definition jsonString :: "string \<Rightarrow> string" where
  "jsonString s = quoted (concat (map jsonEscape s))"

fun jsonMembers :: "(string \<times> string) list \<Rightarrow> string" where
  "jsonMembers [] = []"
| "jsonMembers [(k, v)] = jsonString k @ '':'' @ jsonString v"
| "jsonMembers ((k, v) # kvs) = jsonString k @ '':'' @ jsonString v @ '','' @ jsonMembers kvs"

definition jsonObject :: "(string \<times> string) list \<Rightarrow> string" where
  "jsonObject kvs = ''{'' @ jsonMembers kvs @ ''}''"

definition getProxyId :: "proxy \<Rightarrow> string" where
  "getProxyId p =
     (if ipPort p \<noteq> [] then ipPort p
      else if ip p \<noteq> [] \<and> port p \<noteq> [] then ip p @ '':'' @ port p
      else json p)"

section \<open>Source fetchers\<close>

text \<open>The object built for one line of a listing (lines 173 to 179).\<close>

definition lineProxy :: "proxySource \<Rightarrow> string \<Rightarrow> proxy" where
  "lineProxy src line =
     \<lparr>ipPort = line, ip = [], port = [], protocol = sourceProtocol src, source = url src,
      json = jsonObject [(''ipPort'', line), (''protocol'', sourceProtocol src), (''source'', url src)]\<rparr>"

text \<open>
  \<^verbatim>\<open>fetchFreeProxyList\<close> (lines 152 to 216). The recursive call for an all-used
  source is inside the \<^verbatim>\<open>try\<close> block, so an error it throws reaches the
  \<^verbatim>\<open>catch\<close> of the caller, which tries the next source once more.
\<close>

function fetchFreeProxyList ::
  "config \<Rightarrow> env \<Rightarrow> nat \<Rightarrow> globals \<Rightarrow> (jsError + proxy list) \<times> globals" where
  "fetchFreeProxyList cfg env sourceIndex s =
     (if sourceIndex \<ge> length (freeSources cfg)
      then (Inl (Error ''All free proxy list sources exhausted''), s)
      else
        let src = freeSources cfg ! sourceIndex;
            s1 = emit (NetGet (url src)) s;
            tried =
              (case fetchFromUrl env (now s) (url src) of
                 Inl e \<Rightarrow> (Inl e, s1)
               | Inr data \<Rightarrow>
                   let proxies = map (lineProxy src) (parseLines data);
                       newProxies = filter (\<lambda>p. getProxyId p \<notin> usedProxies s1) proxies
                   in if newProxies = []
                      then fetchFreeProxyList cfg env (sourceIndex + 1) s1
                      else (Inr newProxies,
                            s1\<lparr>freeProxyList := newProxies, freeProxyIndex := 0,
                               currentSourceIndex := sourceIndex, proxyFetchAttempts := 0\<rparr>))
        in case tried of
             (Inr r, s2) \<Rightarrow> (Inr r, s2)
           | (Inl e, s2) \<Rightarrow>
               if sourceIndex + 1 < length (freeSources cfg)
               then fetchFreeProxyList cfg env (sourceIndex + 1) s2
               else (Inl (Error (''Failed to fetch proxies from all sources: '' @ message e)), s2))"
  by pat_completeness auto
termination
  by (relation "measure (\<lambda>(cfg, env, sourceIndex, s). length (freeSources cfg) - sourceIndex)") auto

declare fetchFreeProxyList.simps [simp del]

text \<open>\<^verbatim>\<open>fetchProxiflyProxies\<close> (lines 259 to 338); its \<^verbatim>\<open>catch\<close> rethrows.\<close>

function fetchProxiflyProxies ::
  "config \<Rightarrow> env \<Rightarrow> bool \<Rightarrow> globals \<Rightarrow> (jsError + proxy list) \<times> globals" where
  "fetchProxiflyProxies cfg env filterUsed s =
     (if proxiflyApiKey cfg = []
      then (Inl (Error (''Proxifly API key is required when proxyMode is set to ''
                        @ quoted ''proxifly'')), s)
      else
        let s1 = emit ApiCall s in
        case getProxy env (now s) of
          ApiThrew e \<Rightarrow> (Inl e, s1)
        | ApiOther \<Rightarrow> (Inl (Error ''Unexpected response format from Proxifly API''), s1)
        | resp \<Rightarrow>
            let raw = (case resp of ApiArray ps \<Rightarrow> ps | ApiObject p \<Rightarrow> [p] | _ \<Rightarrow> []) in
            if raw = [] then (Inl (Error ''No proxies returned from Proxifly API''), s1)
            else
              let newProxies =
                    (if filterUsed then filter (\<lambda>p. getProxyId p \<notin> usedProxies s1) raw else raw)
              in if newProxies = []
                 then
                   let s2 = s1\<lparr>proxyFetchAttempts := proxyFetchAttempts s1 + 1\<rparr> in
                   if proxyFetchAttempts s2 \<ge> MAX_FETCH_ATTEMPTS
                   then (Inl (Error (''Unable to fetch new unique proxies after ''
                                     @ show_nat MAX_FETCH_ATTEMPTS
                                     @ '' attempts. All available proxies may have been used.'')), s2)
                   else fetchProxiflyProxies cfg env filterUsed s2
                 else (Inr newProxies,
                       s1\<lparr>proxiflyProxies := newProxies, proxiflyCurrentIndex := 0,
                          proxyFetchAttempts := 0\<rparr>))"
  by pat_completeness auto
termination
  by (relation "measure (\<lambda>(cfg, env, filterUsed, s). MAX_FETCH_ATTEMPTS - proxyFetchAttempts s)")
     (auto simp: emit_def)

declare fetchProxiflyProxies.simps [simp del]

section \<open>Pool manager\<close>

text \<open>
  The consumption step of both pools (lines 238 to 255 and 352 to 369): under rotation
  the record at the cursor, otherwise the record at a random index, which is spliced out;
  its identity is added to the registry. Reading past the end gives
  \<^verbatim>\<open>undefined\<close>, on which \<^verbatim>\<open>getProxyId\<close> throws a \<^verbatim>\<open>TypeError\<close>.
\<close>

definition undefinedProxy :: jsError where
  "undefinedProxy = TypeError ''Cannot read properties of undefined (reading 'ipPort')''"

definition spliceOut :: "nat \<Rightarrow> 'a list \<Rightarrow> 'a list" where
  "spliceOut i xs = take i xs @ drop (Suc i) xs"

definition takeFreeProxy :: "config \<Rightarrow> env \<Rightarrow> globals \<Rightarrow> (jsError + proxy) \<times> globals" where
  "takeFreeProxy cfg env s =
     (if freeRotateProxies cfg
      then (if freeProxyIndex s < length (freeProxyList s)
            then let p = freeProxyList s ! freeProxyIndex s;
                     s1 = s\<lparr>freeProxyIndex := freeProxyIndex s + 1\<rparr>
                 in (Inr p, emit (Acquired p) (s1\<lparr>usedProxies := insert (getProxyId p) (usedProxies s1)\<rparr>))
            else (Inl undefinedProxy, s\<lparr>freeProxyIndex := freeProxyIndex s + 1\<rparr>))
      else
        let s1 = emit Random s in
        if freeProxyList s = [] then (Inl undefinedProxy, s1)
        else let randomIndex = mathRandom env (now s) mod length (freeProxyList s);
                 p = freeProxyList s ! randomIndex;
                 s2 = s1\<lparr>freeProxyList := spliceOut randomIndex (freeProxyList s)\<rparr>
             in (Inr p, emit (Acquired p) (s2\<lparr>usedProxies := insert (getProxyId p) (usedProxies s2)\<rparr>)))"

text \<open>
  \<^verbatim>\<open>getNextFreeProxy\<close> (lines 219 to 256). With no source configured the index of
  the next source is \<^verbatim>\<open>NaN\<close> and the fetcher throws a \<^verbatim>\<open>TypeError\<close> on
  \<^verbatim>\<open>source.url\<close>, which the \<^verbatim>\<open>catch\<close> here wraps like any other.
\<close>

definition getNextFreeProxy :: "config \<Rightarrow> env \<Rightarrow> globals \<Rightarrow> (jsError + proxy) \<times> globals" where
  "getNextFreeProxy cfg env s =
     (if freeProxyList s = [] \<or> freeProxyIndex s \<ge> length (freeProxyList s)
      then
        let s1 = s\<lparr>proxyFetchAttempts := proxyFetchAttempts s + 1\<rparr> in
        if proxyFetchAttempts s1 \<ge> MAX_FETCH_ATTEMPTS
        then (Inl (Error (''Unable to fetch new unique proxies after ''
                          @ show_nat MAX_FETCH_ATTEMPTS @ '' attempts'')), s1)
        else if freeSources cfg = []
        then (Inl (Error (''Failed to fetch new proxies: ''
                          @ ''Cannot read properties of undefined (reading 'url')'')), s1)
        else
          let nextSourceIndex = (currentSourceIndex s1 + 1) mod length (freeSources cfg) in
          case fetchFreeProxyList cfg env nextSourceIndex s1 of
            (Inl e, s2) \<Rightarrow> (Inl (Error (''Failed to fetch new proxies: '' @ message e)), s2)
          | (Inr _, s2) \<Rightarrow> takeFreeProxy cfg env s2
      else takeFreeProxy cfg env s)"

text \<open>\<^verbatim>\<open>getNextProxiflyProxy\<close> (lines 341 to 370).\<close>

definition takeProxiflyProxy :: "config \<Rightarrow> env \<Rightarrow> globals \<Rightarrow> (jsError + proxy) \<times> globals" where
  "takeProxiflyProxy cfg env s =
     (if proxiflyRotateProxies cfg
      then (if proxiflyCurrentIndex s < length (proxiflyProxies s)
            then let p = proxiflyProxies s ! proxiflyCurrentIndex s;
                     s1 = s\<lparr>proxiflyCurrentIndex := proxiflyCurrentIndex s + 1\<rparr>
                 in (Inr p, emit (Acquired p) (s1\<lparr>usedProxies := insert (getProxyId p) (usedProxies s1)\<rparr>))
            else (Inl undefinedProxy, s\<lparr>proxiflyCurrentIndex := proxiflyCurrentIndex s + 1\<rparr>))
      else
        let s1 = emit Random s in
        if proxiflyProxies s = [] then (Inl undefinedProxy, s1)
        else let randomIndex = mathRandom env (now s) mod length (proxiflyProxies s);
                 p = proxiflyProxies s ! randomIndex;
                 s2 = s1\<lparr>proxiflyProxies := spliceOut randomIndex (proxiflyProxies s)\<rparr>
             in (Inr p, emit (Acquired p) (s2\<lparr>usedProxies := insert (getProxyId p) (usedProxies s2)\<rparr>)))"

definition getNextProxiflyProxy :: "config \<Rightarrow> env \<Rightarrow> globals \<Rightarrow> (jsError + proxy) \<times> globals" where
  "getNextProxiflyProxy cfg env s =
     (if proxiflyProxies s = [] \<or> proxiflyCurrentIndex s \<ge> length (proxiflyProxies s)
      then
        (case fetchProxiflyProxies cfg env True s of
           (Inl e, s1) \<Rightarrow> (Inl (Error (''Failed to fetch new proxies: '' @ message e)), s1)
         | (Inr _, s1) \<Rightarrow> takeProxiflyProxy cfg env s1)
      else takeProxiflyProxy cfg env s)"

section \<open>Retry and backoff\<close>

text \<open>
  \<^verbatim>\<open>getBrowserOptions\<close> (lines 398 to 447), reduced to the \<^verbatim>\<open>--proxy-server\<close>
  argument it adds, if any. The mode \<^verbatim>\<open>'free-proxy-list'\<close> has no branch.
\<close>

definition orElse :: "string \<Rightarrow> string \<Rightarrow> string" where
  "orElse a b = (if a \<noteq> [] then a else b)"

definition getBrowserOptions :: "config \<Rightarrow> globals \<Rightarrow> proxy option \<Rightarrow> jsError + string option" where
  "getBrowserOptions cfg s proxyConfig =
     (if proxyMode s = ModeDirect
      then Inr (Some (directProtocol cfg @ ''://'' @ directHost cfg @ '':'' @ directPort cfg))
      else case proxyConfig of
        None \<Rightarrow> Inr None
      | Some p \<Rightarrow>
          if proxyMode s = ModeProxifly
          then (if ipPort p \<noteq> []
                then Inr (Some (orElse (protocol p) (orElse (proxiflyProtocol cfg) ''http'') @ ''://'' @ ipPort p))
                else if ip p \<noteq> [] \<and> port p \<noteq> []
                then Inr (Some (orElse (protocol p) (orElse (proxiflyProtocol cfg) ''http'')
                                @ ''://'' @ ip p @ '':'' @ port p))
                else Inl (Error ''Invalid proxy format from Proxifly''))
          else Inr None)"

text \<open>
  The \<^verbatim>\<open>try\<close> block of \<^verbatim>\<open>scrapeWithRetry\<close> (lines 544 to 833): the proxy for
  this attempt, the browser launch, the status check. The user agent and the viewport are
  drawn from fixed non-empty tables and belong to the opaque payload.
\<close>

definition nextProxy :: "config \<Rightarrow> env \<Rightarrow> globals \<Rightarrow> (jsError + proxy option) \<times> globals" where
  "nextProxy cfg env s =
     (if proxyMode s = ModeProxifly
      then (case getNextProxiflyProxy cfg env s of
              (Inl e, s1) \<Rightarrow> (Inl e, s1) | (Inr p, s1) \<Rightarrow> (Inr (Some p), s1))
      else if proxyMode s = ModeFreeProxyList
      then (case getNextFreeProxy cfg env s of
              (Inl e, s1) \<Rightarrow> (Inl e, s1) | (Inr p, s1) \<Rightarrow> (Inr (Some p), s1))
      else (Inr None, s))"

definition attempt ::
  "config \<Rightarrow> env \<Rightarrow> string \<Rightarrow> nat \<Rightarrow> globals \<Rightarrow> (jsError + nat) \<times> globals" where
  "attempt cfg env target retryCount s =
     (case nextProxy cfg env s of
        (Inl e, s1) \<Rightarrow> (Inl e, s1)
      | (Inr currentProxy, s1) \<Rightarrow>
          (case getBrowserOptions cfg s1 currentProxy of
             Inl e \<Rightarrow> (Inl e, s1)
           | Inr proxyServer \<Rightarrow>
               let s2 = emit (Launch currentProxy proxyServer) s1 in
               case browse env (now s1) target proxyServer of
                 Threw e \<Rightarrow> (Inl e, s2)
               | NoResponse \<Rightarrow> (Inl (Error ''No response received''), s2)
               | Responded status rest \<Rightarrow>
                   if status \<ge> 400
                   then (if (status = 429 \<or> status \<ge> 500) \<and> retryCount < maxRetries cfg
                         then (Inl (Error (''HTTP '' @ show_nat status @ '' - Retry available'')), s2)
                         else (Inl (Error (''HTTP '' @ show_nat status)), s2))
                   else (case rest of Some e \<Rightarrow> (Inl e, s2) | None \<Rightarrow> (Inr status, s2))))"

text \<open>
  The result object: \<^verbatim>\<open>{success: true, status, ...}\<close> or
  \<^verbatim>\<open>{success: false, error, ...}\<close>.
\<close>

datatype result = Success nat | Failed string

definition isRetryable :: "jsError \<Rightarrow> bool" where
  "isRetryable error =
     (let isRateLimit = includes_js (message error) ''429'';
          isServerError = includes_js (message error) ''5'';
          isTimeout = (name error = ''TimeoutError'')
      in isRateLimit \<or> isServerError \<or> isTimeout)"

text \<open>
  Reading an array at an index: past the end the value is \<^verbatim>\<open>undefined\<close>, here
  \<open>None\<close>.
\<close>

definition arrayGet :: "'a list \<Rightarrow> nat \<Rightarrow> 'a option" where
  "arrayGet xs i = (if i < length xs then Some (xs ! i) else None)"

text \<open>
  \<^verbatim>\<open>scrapeWithRetry\<close> (lines 538 to 861); the delay is
  \<^verbatim>\<open>CONFIG.backoffDelays[retryCount]\<close>. The \<^verbatim>\<open>catch\<close> block itself throws
  nothing: it reads \<^verbatim>\<open>error.message\<close>, a string for every error object, and an
  index of the array \<^verbatim>\<open>CONFIG.backoffDelays\<close>, and the failure of
  \<^verbatim>\<open>browser.close()\<close> is swallowed (line 838).
\<close>

function scrapeWithRetry ::
  "config \<Rightarrow> env \<Rightarrow> string \<Rightarrow> nat \<Rightarrow> globals \<Rightarrow> result \<times> globals" where
  "scrapeWithRetry cfg env target retryCount s =
     (case attempt cfg env target retryCount s of
        (Inr status, s1) \<Rightarrow> (Success status, s1)
      | (Inl error, s1) \<Rightarrow>
          if isRetryable error \<and> retryCount < maxRetries cfg
          then
            let delay = arrayGet (backoffDelays cfg) retryCount;
                s2 = emit (Sleep delay) s1
            in scrapeWithRetry cfg env target (retryCount + 1) s2
          else (Failed (message error), s1))"
  by pat_completeness auto
termination
  by (relation "measure (\<lambda>(cfg, env, target, retryCount, s). maxRetries cfg - retryCount)") auto

declare scrapeWithRetry.simps [simp del]

text \<open>
  The course of one call of \<^verbatim>\<open>scrapeWithRetry\<close>, read off its recursion.
  \<open>retryState\<close> is the state in which the recursive call of line 850 starts: the state
  the failed attempt left, after the sleep of line 849. \<open>unitStart cfg env target k n s\<close> is
  the state in which attempt \<open>k\<close> of the unit starts (attempt 0 is the first one), for a
  unit called with retry count \<open>n\<close> in state \<open>s\<close> whose attempts before \<open>k\<close> were
  all retried, and \<open>unitOutcome\<close> is what that attempt returns or throws, with the state
  it leaves.
\<close>

definition retryState :: "config \<Rightarrow> env \<Rightarrow> string \<Rightarrow> nat \<Rightarrow> globals \<Rightarrow> globals" where
  "retryState cfg env target retryCount s =
     emit (Sleep (arrayGet (backoffDelays cfg) retryCount)) (snd (attempt cfg env target retryCount s))"

fun unitStart :: "config \<Rightarrow> env \<Rightarrow> string \<Rightarrow> nat \<Rightarrow> nat \<Rightarrow> globals \<Rightarrow> globals" where
  "unitStart cfg env target 0 n s = s"
| "unitStart cfg env target (Suc k) n s =
     unitStart cfg env target k (n + 1) (retryState cfg env target n s)"

definition unitOutcome ::
  "config \<Rightarrow> env \<Rightarrow> string \<Rightarrow> nat \<Rightarrow> nat \<Rightarrow> globals \<Rightarrow> (jsError + nat) \<times> globals" where
  "unitOutcome cfg env target k n s = attempt cfg env target (n + k) (unitStart cfg env target k n s)"

text \<open>
  An attempt fails retryably when it throws an error that the test of lines 841 to 843
  accepts. \<open>toResult\<close> is the result object that the \<^verbatim>\<open>return\<close> statements of lines 821
  and 855 build from what the last attempt returned or threw. \<open>visitFails\<close>: the page
  visit makes the \<^verbatim>\<open>try\<close> block throw.
\<close>

fun failsRetryably :: "jsError + nat \<Rightarrow> bool" where
  "failsRetryably (Inl error) = isRetryable error"
| "failsRetryably (Inr status) = False"

fun toResult :: "jsError + nat \<Rightarrow> result" where
  "toResult (Inr status) = Success status"
| "toResult (Inl error) = Failed (message error)"

fun visitFails :: "visit \<Rightarrow> bool" where
  "visitFails (Threw e) = True"
| "visitFails NoResponse = True"
| "visitFails (Responded status rest) = (status \<ge> 400 \<or> rest \<noteq> None)"

section \<open>Dispatchers\<close>

text \<open>
  The counters of the \<^verbatim>\<open>results\<close> object. Its two sets of user agents and
  viewports are filled from the opaque payload and are left out.
\<close>

record results =
  successful :: nat
  failed :: nat
  total :: nat

definition emptyResults :: results where
  "emptyResults = \<lparr>successful = 0, failed = 0, total = 0\<rparr>"

definition tally :: "result \<Rightarrow> results \<Rightarrow> results" where
  "tally r res =
     (case r of
        Success _ \<Rightarrow> res\<lparr>total := total res + 1, successful := successful res + 1\<rparr>
      | Failed _ \<Rightarrow> res\<lparr>total := total res + 1, failed := failed res + 1\<rparr>)"

text \<open>
  The start of both dispatchers (lines 899 to 923 and 1025 to 1049): the first fetch of
  the pooled modes, and the fallback to \<^verbatim>\<open>'none'\<close> when it throws.
\<close>

definition initializeProxies :: "config \<Rightarrow> env \<Rightarrow> globals \<Rightarrow> globals" where
  "initializeProxies cfg env s =
     (if proxyMode s = ModeProxifly
      then (case fetchProxiflyProxies cfg env True s of
              (Inl e, s1) \<Rightarrow> s1\<lparr>proxyMode := ModeNone\<rparr>
            | (Inr _, s1) \<Rightarrow> s1)
      else if proxyMode s = ModeFreeProxyList
      then (case fetchFreeProxyList cfg env 0 s of
              (Inl e, s1) \<Rightarrow> s1\<lparr>proxyMode := ModeNone\<rparr>
            | (Inr _, s1) \<Rightarrow> s1)
      else s)"

text \<open>
  The pause between requests and between batches:
  \<^verbatim>\<open>3000 + Math.random() * 4000\<close> milliseconds, which \<^verbatim>\<open>setTimeout\<close> truncates
  to an integer.
\<close>

definition pause :: "env \<Rightarrow> globals \<Rightarrow> globals" where
  "pause env s = emit (Sleep (Some (3000 + mathRandom env (now s) mod 4000))) (emit Random s)"

text \<open>\<^verbatim>\<open>runSequentialScraping\<close> (lines 1011 to 1088).\<close>

function sequentialLoop ::
  "config \<Rightarrow> env \<Rightarrow> string \<Rightarrow> nat \<Rightarrow> results \<times> globals \<Rightarrow> results \<times> globals" where
  "sequentialLoop cfg env target i (res, s) =
     (if i < totalRequests cfg
      then
        (case scrapeWithRetry cfg env target 0 (emit (Request (i + 1)) s) of
           (r, s1) \<Rightarrow>
             sequentialLoop cfg env target (i + 1)
               (tally r res, if i < totalRequests cfg - 1 then pause env s1 else s1))
      else (res, s))"
  by pat_completeness auto
termination
  by (relation "measure (\<lambda>(cfg, env, target, i, rs). totalRequests cfg - i)") auto

declare sequentialLoop.simps [simp del]

definition runSequentialScraping ::
  "config \<Rightarrow> env \<Rightarrow> string \<Rightarrow> globals \<Rightarrow> results \<times> globals" where
  "runSequentialScraping cfg env target s =
     sequentialLoop cfg env target 0 (emptyResults, initializeProxies cfg env s)"

text \<open>
  The worker thread (lines 864 to 880). \<^verbatim>\<open>new Worker(__filename, {workerData})\<close>
  evaluates the file again in a thread of its own: the worker's module-level variables
  and its \<^verbatim>\<open>CONFIG\<close> are new objects with the values written in the file, and the only
  data it receives from the main thread is \<^verbatim>\<open>workerData = {url, workerId}\<close>. Each
  worker sees the outside world through an environment of its own.
\<close>

definition workerThread :: "config \<Rightarrow> env \<Rightarrow> string \<Rightarrow> result \<times> globals" where
  "workerThread cfg wenv target = scrapeWithRetry cfg wenv target 0 (initialGlobals cfg)"

text \<open>
  What the main thread receives from a worker: its message, or an \<^verbatim>\<open>'error'\<close>
  event when the thread dies before posting one.
\<close>

datatype settled = Message nat result | WorkerError string

definition runWorker ::
  "config \<Rightarrow> (nat \<Rightarrow> env) \<Rightarrow> (nat \<Rightarrow> string option) \<Rightarrow> string \<Rightarrow> nat \<Rightarrow> settled" where
  "runWorker cfg wenv werr target workerId =
     (case werr workerId of
        Some msg \<Rightarrow> WorkerError msg
      | None \<Rightarrow> Message workerId (fst (workerThread cfg (wenv workerId) target)))"

definition tallySettled :: "settled \<Rightarrow> results \<Rightarrow> results" where
  "tallySettled m res =
     (case m of
        Message _ r \<Rightarrow> tally r res
      | WorkerError _ \<Rightarrow> res\<lparr>total := total res + 1, failed := failed res + 1\<rparr>)"

text \<open>
  \<^verbatim>\<open>runConcurrentScraping\<close> (lines 883 to 1008). \<open>numBatches\<close> is
  \<^verbatim>\<open>Math.ceil(CONFIG.totalRequests / CONFIG.maxConcurrent)\<close>; the function is only
  called with \<^verbatim>\<open>CONFIG.maxConcurrent > 1\<close> (line 1094). \<open>launchBatch\<close> is the inner
  loop with its \<^verbatim>\<open>break\<close> and gives the worker ids of one batch. The counters do not
  depend on the order in which the messages of a batch arrive.
\<close>

definition numBatches :: "config \<Rightarrow> nat" where
  "numBatches cfg = (totalRequests cfg + maxConcurrent cfg - 1) div maxConcurrent cfg"

function launchBatch :: "config \<Rightarrow> nat \<Rightarrow> nat \<Rightarrow> nat list" where
  "launchBatch cfg batch i =
     (if i < maxConcurrent cfg
      then (let requestNumber = batch * maxConcurrent cfg + i
            in if requestNumber \<ge> totalRequests cfg then []
               else (requestNumber + 1) # launchBatch cfg batch (i + 1))
      else [])"
  by pat_completeness auto
termination
  by (relation "measure (\<lambda>(cfg, batch, i). maxConcurrent cfg - i)") auto

declare launchBatch.simps [simp del]

function batchLoop ::
  "config \<Rightarrow> env \<Rightarrow> (nat \<Rightarrow> env) \<Rightarrow> (nat \<Rightarrow> string option) \<Rightarrow> string \<Rightarrow> nat
   \<Rightarrow> results \<times> globals \<Rightarrow> results \<times> globals" where
  "batchLoop cfg env wenv werr target batch (res, s) =
     (if batch < numBatches cfg
      then
        let workers = launchBatch cfg batch 0;
            s1 = fold (\<lambda>workerId. emit (Spawn workerId)) workers s;
            res1 = fold (\<lambda>workerId. tallySettled (runWorker cfg wenv werr target workerId)) workers res
        in batchLoop cfg env wenv werr target (batch + 1)
             (res1, if batch < numBatches cfg - 1 then pause env s1 else s1)
      else (res, s))"
  by pat_completeness auto
termination
  by (relation "measure (\<lambda>(cfg, env, wenv, werr, target, batch, rs). numBatches cfg - batch)") auto

declare batchLoop.simps [simp del]

definition runConcurrentScraping ::
  "config \<Rightarrow> env \<Rightarrow> (nat \<Rightarrow> env) \<Rightarrow> (nat \<Rightarrow> string option) \<Rightarrow> string \<Rightarrow> globals
   \<Rightarrow> results \<times> globals" where
  "runConcurrentScraping cfg env wenv werr target s =
     batchLoop cfg env wenv werr target 0 (emptyResults, initializeProxies cfg env s)"

text \<open>
  The main thread (lines 1091 to 1103), started on a freshly loaded module. \<open>target\<close>
  is the video URL taken from the process environment.
\<close>

definition mainThread ::
  "config \<Rightarrow> env \<Rightarrow> (nat \<Rightarrow> env) \<Rightarrow> (nat \<Rightarrow> string option) \<Rightarrow> string
   \<Rightarrow> results \<times> globals" where
  "mainThread cfg env wenv werr target =
     (if maxConcurrent cfg > 1
      then runConcurrentScraping cfg env wenv werr target (initialGlobals cfg)
      else runSequentialScraping cfg env target (initialGlobals cfg))"


section \<open>Reading traces\<close>

text \<open>The events a computation added to the trace, from the state before and after it.\<close>

definition newEvents :: "globals \<Rightarrow> globals \<Rightarrow> event list" where
  "newEvents s s' = drop (length (trace s)) (trace s')"

fun isFetch :: "event \<Rightarrow> bool" where
  "isFetch (NetGet _) = True"
| "isFetch ApiCall = True"
| "isFetch Random = True"
| "isFetch _ = False"

fun isLaunch :: "event \<Rightarrow> bool" where
  "isLaunch (Launch _ _) = True"
| "isLaunch _ = False"

fun isDispatch :: "event \<Rightarrow> bool" where
  "isDispatch (Request _) = True"
| "isDispatch (Spawn _) = True"
| "isDispatch _ = False"

text \<open>The delays slept, the requests started and the workers spawned, in order.\<close>

fun sleeps :: "event list \<Rightarrow> nat option list" where
  "sleeps [] = []"
| "sleeps (Sleep d # es) = d # sleeps es"
| "sleeps (_ # es) = sleeps es"

fun dispatched :: "event list \<Rightarrow> nat list" where
  "dispatched [] = []"
| "dispatched (Request n # es) = n # dispatched es"
| "dispatched (Spawn n # es) = n # dispatched es"
| "dispatched (_ # es) = dispatched es"

text \<open>
  Every browser launch in the list comes directly after the pool manager handed out a
  record, and is given that record.
\<close>

fun freshPerLaunch :: "event list \<Rightarrow> bool" where
  "freshPerLaunch [] = True"
| "freshPerLaunch (Acquired p # Launch q a # es) = (q = Some p \<and> freshPerLaunch es)"
| "freshPerLaunch (Launch q a # es) = False"
| "freshPerLaunch (_ # es) = freshPerLaunch es"

text \<open>
  \<open>extends P s s'\<close>: the trace of \<open>s'\<close> is the trace of \<open>s\<close> followed by events that
  all satisfy \<open>P\<close>. \<open>frame\<close> is what the source fetchers do to the state as far as the
  orchestrator can see.
\<close>

definition extends :: "(event \<Rightarrow> bool) \<Rightarrow> globals \<Rightarrow> globals \<Rightarrow> bool" where
  "extends P s s' = (\<exists>es. trace s' = trace s @ es \<and> list_all P es)"

definition frame :: "globals \<Rightarrow> globals \<Rightarrow> bool" where
  "frame s s' = (extends isFetch s s' \<and> proxyMode s' = proxyMode s)"

text \<open>
  \<open>seg\<close>: a stretch of trace in which every launch is paired, and which can follow any
  other such stretch. \<open>handsOut s r s'\<close>: what a call of the pool manager does to the
  state, with result \<open>r\<close>. \<open>unitTrace m es\<close>: what one work unit may add to the trace
  when the module's proxy mode is \<open>m\<close>.
\<close>

definition seg :: "event list \<Rightarrow> bool" where
  "seg es = (freshPerLaunch es \<and> (es = [] \<or> \<not> isLaunch (hd es)))"

definition handsOut :: "globals \<Rightarrow> jsError + proxy \<Rightarrow> globals \<Rightarrow> bool" where
  "handsOut s r s' =
     (proxyMode s' = proxyMode s \<and>
      (\<exists>es. list_all isFetch es \<and>
            trace s' = trace s @ es @ (case r of Inl e \<Rightarrow> [] | Inr p \<Rightarrow> [Acquired p])) \<and>
      (case r of Inl e \<Rightarrow> True | Inr p \<Rightarrow> getProxyId p \<in> usedProxies s'))"

definition pooled :: "proxyMode \<Rightarrow> bool" where
  "pooled m = (m = ModeProxifly \<or> m = ModeFreeProxyList)"

fun directLaunchOrSleep :: "event \<Rightarrow> bool" where
  "directLaunchOrSleep (Launch q a) = (q = None \<and> a = None)"
| "directLaunchOrSleep (Sleep _) = True"
| "directLaunchOrSleep _ = False"

definition unitTrace :: "proxyMode \<Rightarrow> event list \<Rightarrow> bool" where
  "unitTrace m es =
     (dispatched es = [] \<and> (pooled m \<longrightarrow> seg es) \<and>
      (m = ModeNone \<longrightarrow> list_all directLaunchOrSleep es))"

section \<open>Concrete configurations and environments\<close>

text \<open>The \<^verbatim>\<open>CONFIG\<close> object as the file writes it, with no API key in the environment.\<close>

definition CONFIG :: config where
  "CONFIG =
     \<lparr>maxRetries = 5, backoffDelays = [1000, 3000, 5000, 9000, 15000], maxConcurrent = 5,
      totalRequests = 250, configProxyMode = ModeFreeProxyList,
      directProtocol = ''socks5'', directHost = ''127.0.0.1'', directPort = ''9150'',
      proxiflyApiKey = [], proxiflyProtocol = ''https'', proxiflyRotateProxies = True,
      freeSources =
        [\<lparr>url = ''https://cdn.jsdelivr.net/gh/proxifly/free-proxy-list@main/proxies/protocols/socks5/data.txt'',
          sourceProtocol = ''socks5'', priority = 1\<rparr>,
         \<lparr>url = ''https://cdn.jsdelivr.net/gh/proxifly/free-proxy-list@main/proxies/all/data.txt'',
          sourceProtocol = ''http'', priority = 2\<rparr>],
      freeRotateProxies = True\<rparr>"

definition videoUrl :: string where
  "videoUrl = ''https://www.youtube.com/watch?v=P6mvufMyHQQ''"

text \<open>
  An environment in which every proxy source serves the text \<open>listing\<close>, the Proxifly
  API is unreachable, and every page visit has the outcome \<open>v\<close>.
\<close>

definition servingEnv :: "string \<Rightarrow> visit \<Rightarrow> env" where
  "servingEnv listing v =
     \<lparr>fetchFromUrl = (\<lambda>t u. Inr listing),
      getProxy = (\<lambda>t. ApiThrew (Error ''getaddrinfo ENOTFOUND api.proxifly.dev'')),
      mathRandom = (\<lambda>t. 0),
      browse = (\<lambda>t u a. v)\<rparr>"

definition newline :: string where
  "newline = [CHR 0x0A]"

text \<open>The results of \<open>n\<close> calls of \<^verbatim>\<open>getNextFreeProxy\<close> in a row.\<close>

fun repeatNextFree ::
  "config \<Rightarrow> env \<Rightarrow> nat \<Rightarrow> globals \<Rightarrow> (jsError + proxy) list \<times> globals" where
  "repeatNextFree cfg env 0 s = ([], s)"
| "repeatNextFree cfg env (Suc n) s =
     (case getNextFreeProxy cfg env s of
        (r, s1) \<Rightarrow> (case repeatNextFree cfg env n s1 of (rs, s2) \<Rightarrow> (r # rs, s2)))"

fun acquired :: "event list \<Rightarrow> proxy list" where
  "acquired [] = []"
| "acquired (Acquired p # es) = p # acquired es"
| "acquired (_ # es) = acquired es"

fun netGets :: "event list \<Rightarrow> string list" where
  "netGets [] = []"
| "netGets (NetGet u # es) = u # netGets es"
| "netGets (_ # es) = netGets es"

text \<open>
  \<open>overDirect\<close>: an event of a run that goes over direct connections only, that is, no
  record is taken from a pool and every browser is launched with no proxy.
\<close>

fun overDirect :: "event \<Rightarrow> bool" where
  "overDirect (Launch q a) = (q = None \<and> a = None)"
| "overDirect (Acquired _) = False"
| "overDirect _ = True"

text \<open>The worker ids spawned from batch \<open>b\<close> on, in order.\<close>

definition batchIds :: "config \<Rightarrow> nat \<Rightarrow> nat list" where
  "batchIds cfg b = concat (map (\<lambda>k. launchBatch cfg k 0) [b..<numBatches cfg])"

text \<open>A page visit that times out: the browser rejects with a \<^verbatim>\<open>TimeoutError\<close>.\<close>

definition timeoutError :: jsError where
  "timeoutError = \<lparr>name = ''TimeoutError'', message = ''Navigation timeout of 160000 ms exceeded''\<rparr>"



text \<open>
  A configuration whose backoff schedule is shorter than \<open>maxRetries\<close>, and one in
  proxifly mode with no API key; each asks for a single request, one at a time.
\<close>

definition shortScheduleConfig :: config where
  "shortScheduleConfig =
     CONFIG\<lparr>maxRetries := 2, backoffDelays := [100], configProxyMode := ModeNone,
            totalRequests := 1, maxConcurrent := 1\<rparr>"

definition noKeyConfig :: config where
  "noKeyConfig = CONFIG\<lparr>configProxyMode := ModeProxifly, totalRequests := 1, maxConcurrent := 1\<rparr>"

text \<open>
  Proxy listings: one with the same line twice, and one with a single line. A Proxifly
  API that answers every call with the one proxy \<open>1.1.1.1:80\<close>.
\<close>

definition duplicateListing :: string where
  "duplicateListing = ''1.1.1.1:80'' @ newline @ ''1.1.1.1:80'' @ newline"

definition oneProxy :: string where
  "oneProxy = ''1.1.1.1:80'' @ newline"

definition apiProxy :: proxy where
  "apiProxy =
     \<lparr>ipPort = ''1.1.1.1:80'', ip = ''1.1.1.1'', port = ''80'', protocol = ''https'', source = [],
      json = jsonObject [(''ip'', ''1.1.1.1''), (''port'', ''80''), (''ipPort'', ''1.1.1.1:80''),
                         (''protocol'', ''https'')]\<rparr>"

definition proxiflyEnv :: env where
  "proxiflyEnv =
     \<lparr>fetchFromUrl = (\<lambda>t u. Inl (Error ''getaddrinfo ENOTFOUND cdn.jsdelivr.net'')),
      getProxy = (\<lambda>t. ApiArray [apiProxy]),
      mathRandom = (\<lambda>t. 0),
      browse = (\<lambda>t u a. Responded 200 None)\<rparr>"

definition keyConfig :: config where
  "keyConfig = CONFIG\<lparr>configProxyMode := ModeProxifly, proxiflyApiKey := ''key''\<rparr>"

text \<open>
  A Proxifly API that answers every call with an array holding the record of
  \<open>1.1.1.1:80\<close> twice, and a target every visit of which times out. Configurations with
  an API key, and with the free proxy lists, that allow one retry.
\<close>

definition repeatingApiEnv :: env where
  "repeatingApiEnv =
     \<lparr>fetchFromUrl = (\<lambda>t u. Inl (Error ''getaddrinfo ENOTFOUND cdn.jsdelivr.net'')),
      getProxy = (\<lambda>t. ApiArray [apiProxy, apiProxy]),
      mathRandom = (\<lambda>t. 0),
      browse = (\<lambda>t u a. Threw timeoutError)\<rparr>"

definition oneRetryKeyConfig :: config where
  "oneRetryKeyConfig = keyConfig\<lparr>maxRetries := 1\<rparr>"

definition oneRetryConfig :: config where
  "oneRetryConfig = CONFIG\<lparr>maxRetries := 1\<rparr>"

text \<open>
  Two requests, one at a time, with no proxy, and a target whose visits time out until
  tick 12 of the run and are answered with status 200 from then on.
\<close>

definition twoRequestConfig :: config where
  "twoRequestConfig = CONFIG\<lparr>configProxyMode := ModeNone, totalRequests := 2, maxConcurrent := 1\<rparr>"

definition recoveringEnv :: env where
  "recoveringEnv =
     \<lparr>fetchFromUrl = (\<lambda>t u. Inl (Error ''getaddrinfo ENOTFOUND cdn.jsdelivr.net'')),
      getProxy = (\<lambda>t. ApiThrew (Error ''getaddrinfo ENOTFOUND api.proxifly.dev'')),
      mathRandom = (\<lambda>t. 0),
      browse = (\<lambda>t u a. if t < 12 then Threw timeoutError else Responded 200 None)\<rparr>"

text \<open>The results of \<open>n\<close> calls of \<^verbatim>\<open>getNextProxiflyProxy\<close> in a row.\<close>

fun repeatNextProxifly ::
  "config \<Rightarrow> env \<Rightarrow> nat \<Rightarrow> globals \<Rightarrow> (jsError + proxy) list \<times> globals" where
  "repeatNextProxifly cfg env 0 s = ([], s)"
| "repeatNextProxifly cfg env (Suc n) s =
     (case getNextProxiflyProxy cfg env s of
        (r, s1) \<Rightarrow> (case repeatNextProxifly cfg env n s1 of (rs, s2) \<Rightarrow> (r # rs, s2)))"

fun apiCalls :: "event list \<Rightarrow> nat" where
  "apiCalls [] = 0"
| "apiCalls (ApiCall # es) = Suc (apiCalls es)"
| "apiCalls (_ # es) = apiCalls es"

text \<open>
  Two requests, two workers at a time: with the file's free proxy lists, with no proxy,
  and in proxifly mode with no API key.
\<close>

definition twoWorkerConfig :: config where
  "twoWorkerConfig = CONFIG\<lparr>totalRequests := 2, maxConcurrent := 2\<rparr>"

definition directConfig :: config where
  "directConfig = CONFIG\<lparr>configProxyMode := ModeNone\<rparr>"

definition noKeyConcurrentConfig :: config where
  "noKeyConcurrentConfig = CONFIG\<lparr>configProxyMode := ModeProxifly, totalRequests := 2, maxConcurrent := 2\<rparr>"

text \<open>The identities a worker takes from the pool of its own module instance.\<close>

definition workerProxies :: "config \<Rightarrow> (nat \<Rightarrow> env) \<Rightarrow> string \<Rightarrow> nat \<Rightarrow> string list" where
  "workerProxies cfg wenv target workerId =
     map getProxyId (acquired (trace (snd (workerThread cfg (wenv workerId) target))))"

text \<open>
  For the no-repeat property of the free proxy lists: the successful results of a list of
  calls; the part of the pool still to be handed out; the state of a pool none of whose
  remaining records repeats an identity or has one that is registered; and an outside
  world in which no listing has the same line twice.
\<close>

fun rights :: "('a + 'b) list \<Rightarrow> 'b list" where
  "rights [] = []"
| "rights (Inr x # rs) = x # rights rs"
| "rights (Inl _ # rs) = rights rs"

definition remainingPool :: "config \<Rightarrow> globals \<Rightarrow> proxy list" where
  "remainingPool cfg s =
     (if freeRotateProxies cfg then drop (freeProxyIndex s) (freeProxyList s) else freeProxyList s)"

definition poolFresh :: "config \<Rightarrow> globals \<Rightarrow> bool" where
  "poolFresh cfg s =
     (distinct (map getProxyId (remainingPool cfg s)) \<and>
      (\<forall>p \<in> set (remainingPool cfg s). getProxyId p \<notin> usedProxies s))"

definition listsDistinct :: "env \<Rightarrow> bool" where
  "listsDistinct env = (\<forall>t u data. fetchFromUrl env t u = Inr data \<longrightarrow> distinct (parseLines data))"

text \<open>\<open>fetched s r s'\<close>: what a call of \<^verbatim>\<open>fetchFreeProxyList\<close> does to the pool.\<close>

definition fetched :: "globals \<Rightarrow> jsError + proxy list \<Rightarrow> globals \<Rightarrow> bool" where
  "fetched s r s' =
     (usedProxies s' = usedProxies s \<and>
      (case r of
         Inr ps \<Rightarrow> freeProxyList s' = ps \<and> freeProxyIndex s' = 0 \<and> distinct (map getProxyId ps)
                   \<and> (\<forall>p \<in> set ps. getProxyId p \<notin> usedProxies s)
       | Inl e \<Rightarrow> freeProxyList s' = freeProxyList s \<and> freeProxyIndex s' = freeProxyIndex s))"

text \<open>\<open>taken s r s'\<close>: what a call of the pool manager does to the registry.\<close>

definition taken :: "globals \<Rightarrow> jsError + proxy \<Rightarrow> globals \<Rightarrow> bool" where
  "taken s r s' =
     (case r of
        Inr p \<Rightarrow> getProxyId p \<notin> usedProxies s \<and> usedProxies s' = insert (getProxyId p) (usedProxies s)
      | Inl e \<Rightarrow> usedProxies s' = usedProxies s)"

text \<open>
  \<open>freshlyTaken s es s'\<close>: the records handed out in the events \<open>es\<close> have pairwise
  different identities, none registered in \<open>s\<close> and all registered in \<open>s'\<close>.
\<close>

definition freshlyTaken :: "globals \<Rightarrow> event list \<Rightarrow> globals \<Rightarrow> bool" where
  "freshlyTaken s es s' =
     (usedProxies s \<subseteq> usedProxies s' \<and> distinct (map getProxyId (acquired es)) \<and>
      getProxyId ` set (acquired es) \<subseteq> usedProxies s' - usedProxies s)"

section \<open>Batches\<close>

lemma launchBatch_eq:
  "i \<le> maxConcurrent cfg \<Longrightarrow>
   launchBatch cfg batch i =
     map Suc [batch * maxConcurrent cfg + i ..< min (batch * maxConcurrent cfg + maxConcurrent cfg) (totalRequests cfg)]"
proof (induction cfg batch i rule: launchBatch.induct)
  case (1 cfg batch i)
  show ?case
  proof (cases "i < maxConcurrent cfg")
    case False
    with "1.prems" have "i = maxConcurrent cfg" by simp
    then show ?thesis by (subst launchBatch.simps) simp
  next
    case True
    show ?thesis
    proof (cases "batch * maxConcurrent cfg + i \<ge> totalRequests cfg")
      case True
      with \<open>i < maxConcurrent cfg\<close> show ?thesis by (subst launchBatch.simps) simp
    next
      case False
      with True "1.IH"[OF True refl False] show ?thesis
        by (subst launchBatch.simps) (simp add: upt_conv_Cons Let_def)
    qed
  qed
qed


lemma numBatches_bounds:
  assumes "0 < maxConcurrent cfg"
  shows "totalRequests cfg \<le> numBatches cfg * maxConcurrent cfg"
    and "numBatches cfg * maxConcurrent cfg < totalRequests cfg + maxConcurrent cfg"
proof -
  let ?c = "maxConcurrent cfg" and ?t = "totalRequests cfg"
  have a: "(?t + ?c - 1) div ?c * ?c \<le> ?t + ?c - 1"
    by (rule div_times_less_eq_dividend)
  have b: "?t + ?c - 1 < ?c + (?t + ?c - 1) div ?c * ?c"
    using assms by (rule dividend_less_div_times)
  show "?t \<le> numBatches cfg * ?c" using b assms unfolding numBatches_def by arith
  show "numBatches cfg * ?c < ?t + ?c" using a assms unfolding numBatches_def by arith
qed






section \<open>What the fetchers and the pool manager do to the trace\<close>

lemma extends_refl [simp]: "extends P s s"
  by (simp add: extends_def)

lemma extends_trans: "extends P s s1 \<Longrightarrow> extends P s1 s2 \<Longrightarrow> extends P s s2"
  by (auto simp: extends_def)

lemma extends_emit: "P e \<Longrightarrow> extends P s (emit e s)"
  by (simp add: extends_def emit_def)

lemma frame_refl [simp]: "frame s s"
  by (simp add: frame_def)

lemma frame_trans: "frame s s1 \<Longrightarrow> frame s1 s2 \<Longrightarrow> frame s s2"
  by (auto simp: frame_def intro: extends_trans)

lemma frame_emit: "isFetch e \<Longrightarrow> frame s (emit e s)"
  by (simp add: frame_def extends_emit) (simp add: emit_def)

lemma frame_upd:
  "trace s2 = trace s1 \<Longrightarrow> proxyMode s2 = proxyMode s1 \<Longrightarrow> frame s s1 \<Longrightarrow> frame s s2"
  by (simp add: frame_def extends_def)

lemma fetchFreeProxyList_frame:
  "frame s (snd (fetchFreeProxyList cfg env i s))"
proof (induction cfg env i s rule: fetchFreeProxyList.induct)
  case (1 cfg env sourceIndex s)
  show ?case
  proof (cases "sourceIndex \<ge> length (freeSources cfg)")
    case True
    then show ?thesis by (subst fetchFreeProxyList.simps) simp
  next
    case False
    define src where "src = freeSources cfg ! sourceIndex"
    define s1 where "s1 = emit (NetGet (url src)) s"
    define fresh where "fresh = (\<lambda>data. filter (\<lambda>p. getProxyId p \<notin> usedProxies s1) (map (lineProxy src) (parseLines data)))"
    define tried where "tried =
      (case fetchFromUrl env (now s) (url src) of
         Inl e \<Rightarrow> (Inl e, s1)
       | Inr data \<Rightarrow>
           if fresh data = [] then fetchFreeProxyList cfg env (sourceIndex + 1) s1
           else (Inr (fresh data),
                 s1\<lparr>freeProxyList := fresh data, freeProxyIndex := 0,
                    currentSourceIndex := sourceIndex, proxyFetchAttempts := 0\<rparr>))"
    have unfold: "fetchFreeProxyList cfg env sourceIndex s =
      (case tried of
         (Inr r, s2) \<Rightarrow> (Inr r, s2)
       | (Inl e, s2) \<Rightarrow>
           if sourceIndex + 1 < length (freeSources cfg)
           then fetchFreeProxyList cfg env (sourceIndex + 1) s2
           else (Inl (Error (''Failed to fetch proxies from all sources: '' @ message e)), s2))"
      apply (subst fetchFreeProxyList.simps)
      unfolding tried_def fresh_def s1_def src_def Let_def
      using False by simp
    have s1: "frame s s1" by (simp add: s1_def frame_emit)
    have tried_frame: "frame s (snd tried)"
    proof (cases "fetchFromUrl env (now s) (url src)")
      case (Inl e)
      then show ?thesis using s1 by (simp add: tried_def)
    next
      case (Inr data)
      show ?thesis
      proof (cases "fresh data = []")
        case True
        have "frame s1 (snd (fetchFreeProxyList cfg env (sourceIndex + 1) s1))"
          using "1.IH"(1)[OF False refl refl Inr[unfolded src_def] refl refl] True
          by (simp add: fresh_def s1_def src_def)
        with s1 show ?thesis using Inr True by (auto simp: tried_def intro: frame_trans)
      next
        case False
        then show ?thesis using Inr s1 by (auto simp: tried_def elim!: frame_upd[rotated 2])
      qed
    qed
    obtain r s2 where t: "tried = (r, s2)" by (cases tried)
    show ?thesis
    proof (cases r)
      case (Inr ps)
      then show ?thesis using t tried_frame by (simp add: unfold)
    next
      case (Inl e)
      show ?thesis
      proof (cases "sourceIndex + 1 < length (freeSources cfg)")
        case True
        have "tried = (Inl e, s2)" using t Inl by simp
        note orig = this[unfolded tried_def fresh_def s1_def src_def, symmetric]
        have "frame s2 (snd (fetchFreeProxyList cfg env (sourceIndex + 1) s2))"
          by (rule "1.IH"(2)[unfolded Let_def, OF False refl refl refl orig refl True])
        then show ?thesis using t Inl True tried_frame by (auto simp: unfold intro: frame_trans)
      next
        case False
        then show ?thesis using t Inl tried_frame by (simp add: unfold)
      qed
    qed
  qed
qed


lemma fetchProxiflyProxies_frame:
  "frame s (snd (fetchProxiflyProxies cfg env filterUsed s))"
proof (induction cfg env filterUsed s rule: fetchProxiflyProxies.induct)
  case (1 cfg env filterUsed s)
  define s1 where "s1 = emit ApiCall s"
  define s2 where "s2 = s1\<lparr>proxyFetchAttempts := proxyFetchAttempts s1 + 1\<rparr>"
  have f1: "frame s s1" by (simp add: s1_def frame_emit)
  have f2: "frame s s2" using f1 by (rule frame_upd[rotated 2]) (simp_all add: s2_def)
  have f3: "frame s (s1\<lparr>proxiflyProxies := ps, proxiflyCurrentIndex := 0, proxyFetchAttempts := 0\<rparr>)" for ps
    using f1 by (rule frame_upd[rotated 2]) simp_all
  have rec: "frame s2 (snd (fetchProxiflyProxies cfg env filterUsed s2)) \<Longrightarrow>
             frame s (snd (fetchProxiflyProxies cfg env filterUsed s2))"
    using f2 by (rule frame_trans)
  note IH = "1.IH"[OF _ refl _ refl _ refl _ refl, folded s1_def, folded s2_def]
  show ?case
    apply (subst fetchProxiflyProxies.simps)
    unfolding Let_def
    apply (fold s1_def)
    apply (fold s2_def)
    using f1 f2 f3 rec IH
    by (auto split: apiResponse.splits)
qed

lemma frame_handsOut: "frame s s1 \<Longrightarrow> handsOut s1 r s2 \<Longrightarrow> handsOut s r s2"
  unfolding frame_def handsOut_def extends_def
  by clarsimp

lemma frame_handsOut_Inl: "frame s s' \<Longrightarrow> handsOut s (Inl e) s'"
  by (auto simp: frame_def handsOut_def extends_def)

lemma takeFreeProxy_handsOut:
  "takeFreeProxy cfg env s = (r, s') \<Longrightarrow> handsOut s r s'"
  unfolding takeFreeProxy_def handsOut_def Let_def emit_def
  by (auto split: if_splits intro: exI[of _ "[]"] exI[of _ "[Random]"])

lemma takeProxiflyProxy_handsOut:
  "takeProxiflyProxy cfg env s = (r, s') \<Longrightarrow> handsOut s r s'"
  unfolding takeProxiflyProxy_def handsOut_def Let_def emit_def
  by (auto split: if_splits intro: exI[of _ "[]"] exI[of _ "[Random]"])

lemma getNextFreeProxy_handsOut:
  assumes "getNextFreeProxy cfg env s = (r, s')"
  shows "handsOut s r s'"
proof (cases "freeProxyList s = [] \<or> freeProxyIndex s \<ge> length (freeProxyList s)")
  case False
  then show ?thesis using assms by (auto simp: getNextFreeProxy_def intro: takeFreeProxy_handsOut)
next
  case True
  define s1 where "s1 = s\<lparr>proxyFetchAttempts := proxyFetchAttempts s + 1\<rparr>"
  have f1: "frame s s1" by (rule frame_upd[OF _ _ frame_refl]) (simp_all add: s1_def)
  define nxt where "nxt = (currentSourceIndex s1 + 1) mod length (freeSources cfg)"
  obtain q s2 where F: "fetchFreeProxyList cfg env nxt s1 = (q, s2)" by (cases "fetchFreeProxyList cfg env nxt s1")
  have f2: "frame s1 s2" using fetchFreeProxyList_frame[of s1 cfg env nxt] F by simp
  have f12: "frame s s2" using f1 f2 by (rule frame_trans)
  note step = assms[unfolded getNextFreeProxy_def Let_def, folded s1_def, folded nxt_def]
  show ?thesis
  proof (cases "proxyFetchAttempts s1 \<ge> MAX_FETCH_ATTEMPTS \<or> freeSources cfg = []")
    case stop: True
    then have "\<exists>e. r = Inl e \<and> s' = s1" using step True by (auto split: if_splits)
    then show ?thesis using f1 by (auto intro: frame_handsOut_Inl)
  next
    case False
    then have step2: "(case (q, s2) of (Inl e, s2) \<Rightarrow> (Inl (Error (''Failed to fetch new proxies: '' @ message e)), s2)
                                   | (Inr _, s2) \<Rightarrow> takeFreeProxy cfg env s2) = (r, s')"
      using step True F by (simp split: if_splits)
    show ?thesis
    proof (cases q)
      case (Inl e)
      then show ?thesis using step2 f12 by (auto intro: frame_handsOut_Inl)
    next
      case (Inr ps)
      then have "takeFreeProxy cfg env s2 = (r, s')" using step2 by simp
      then show ?thesis using f12 by (auto intro: frame_handsOut takeFreeProxy_handsOut)
    qed
  qed
qed

lemma getNextProxiflyProxy_handsOut:
  assumes "getNextProxiflyProxy cfg env s = (r, s')"
  shows "handsOut s r s'"
proof (cases "proxiflyProxies s = [] \<or> proxiflyCurrentIndex s \<ge> length (proxiflyProxies s)")
  case False
  then show ?thesis using assms by (auto simp: getNextProxiflyProxy_def intro: takeProxiflyProxy_handsOut)
next
  case True
  obtain q s1 where F: "fetchProxiflyProxies cfg env True s = (q, s1)"
    by (cases "fetchProxiflyProxies cfg env True s")
  have f1: "frame s s1" using fetchProxiflyProxies_frame[of s cfg env True] F by simp
  show ?thesis
  proof (cases q)
    case (Inl e)
    then show ?thesis using assms True F f1
      by (auto simp: getNextProxiflyProxy_def intro: frame_handsOut_Inl)
  next
    case (Inr ps)
    then have "takeProxiflyProxy cfg env s1 = (r, s')" using assms True F
      by (auto simp: getNextProxiflyProxy_def)
    then show ?thesis using f1 by (auto intro: frame_handsOut takeProxiflyProxy_handsOut)
  qed
qed

lemma sleeps_append [simp]: "sleeps (xs @ ys) = sleeps xs @ sleeps ys"
  by (induction xs rule: sleeps.induct) auto

lemma dispatched_append [simp]: "dispatched (xs @ ys) = dispatched xs @ dispatched ys"
  by (induction xs rule: dispatched.induct) auto

lemma isFetch_sleeps: "list_all isFetch es \<Longrightarrow> sleeps es = []"
  by (induction es rule: sleeps.induct) auto

lemma isFetch_dispatched: "list_all isFetch es \<Longrightarrow> dispatched es = []"
  by (induction es rule: dispatched.induct) auto

lemma freshPerLaunch_skip: "\<not> isLaunch e \<Longrightarrow> (\<forall>p. e \<noteq> Acquired p) \<Longrightarrow> freshPerLaunch (e # es) = freshPerLaunch es"
  by (cases e) auto

lemma isFetch_fresh: "list_all isFetch es \<Longrightarrow> freshPerLaunch (es @ ys) = freshPerLaunch ys"
proof (induction es)
  case Nil
  then show ?case by simp
next
  case (Cons e es)
  then have "\<not> isLaunch e" "\<forall>p. e \<noteq> Acquired p" by (cases e; simp)+
  then show ?case using Cons by (simp add: freshPerLaunch_skip)
qed

lemma freshPerLaunch_Acquired: "ys = [] \<or> \<not> isLaunch (hd ys) \<Longrightarrow> freshPerLaunch (Acquired p # ys) = freshPerLaunch ys"
  by (cases ys) (auto elim: isLaunch.elims)

lemma fresh_append:
  "freshPerLaunch xs \<Longrightarrow> freshPerLaunch ys \<Longrightarrow> ys = [] \<or> \<not> isLaunch (hd ys) \<Longrightarrow> freshPerLaunch (xs @ ys)"
  by (induction xs rule: freshPerLaunch.induct) (auto simp: freshPerLaunch_Acquired)

lemma seg_append: "seg xs \<Longrightarrow> seg ys \<Longrightarrow> seg (xs @ ys)"
  using fresh_append[of xs ys] by (cases xs) (auto simp: seg_def)

lemma seg_Nil [simp]: "seg []"
  by (simp add: seg_def)

lemma seg_Sleep [simp]: "seg [Sleep d]"
  by (simp add: seg_def)

lemma seg_fetch: "list_all isFetch es \<Longrightarrow> seg ys \<Longrightarrow> seg (es @ ys)"
  using isFetch_fresh[of es ys] by (cases es) (auto simp: seg_def elim: isFetch.elims)

section \<open>One work unit\<close>

lemma attempt_cases:
  assumes "attempt cfg env target n s = (r, s')"
  obtains (noProxy) e where "nextProxy cfg env s = (Inl e, s')" "r = Inl e"
  | (badOptions) cp e where "nextProxy cfg env s = (Inr cp, s')" "getBrowserOptions cfg s' cp = Inl e" "r = Inl e"
  | (launched) cp s1 a where "nextProxy cfg env s = (Inr cp, s1)" "getBrowserOptions cfg s1 cp = Inr a"
      "s' = emit (Launch cp a) s1"
proof -
  obtain q s1 where np: "nextProxy cfg env s = (q, s1)" by (cases "nextProxy cfg env s")
  show ?thesis
  proof (cases q)
    case (Inl e)
    then show ?thesis using assms np noProxy by (simp add: attempt_def)
  next
    case (Inr cp)
    show ?thesis
    proof (cases "getBrowserOptions cfg s1 cp")
      case (Inl e)
      then show ?thesis using assms np Inr badOptions by (simp add: attempt_def)
    next
      case opts: (Inr a)
      have "s' = emit (Launch cp a) s1"
        using assms np Inr opts unfolding attempt_def Let_def
        by (simp split: visit.splits if_splits option.splits)
      then show ?thesis using np Inr opts launched by simp
    qed
  qed
qed

lemma nextProxy_pooled:
  assumes "nextProxy cfg env s = (q, s1)" "pooled (proxyMode s)"
  shows "\<exists>r. handsOut s r s1 \<and> q = map_sum id Some r"
proof (cases "proxyMode s = ModeProxifly")
  case True
  obtain r t where g: "getNextProxiflyProxy cfg env s = (r, t)" by (cases "getNextProxiflyProxy cfg env s")
  then have "handsOut s r t" by (rule getNextProxiflyProxy_handsOut)
  then show ?thesis using assms True g by (cases r) (auto simp: nextProxy_def)
next
  case False
  then have m: "proxyMode s = ModeFreeProxyList" using assms(2) by (simp add: pooled_def)
  obtain r t where g: "getNextFreeProxy cfg env s = (r, t)" by (cases "getNextFreeProxy cfg env s")
  then have "handsOut s r t" by (rule getNextFreeProxy_handsOut)
  then show ?thesis using assms(1) m g by (cases r) (auto simp: nextProxy_def)
qed

lemma nextProxy_unpooled:
  assumes "nextProxy cfg env s = (q, s1)" "\<not> pooled (proxyMode s)"
  shows "q = Inr None \<and> s1 = s"
  using assms by (auto simp: nextProxy_def pooled_def)

lemma attempt_unit:
  assumes "attempt cfg env target n s = (r, s')"
  shows "proxyMode s' = proxyMode s \<and>
         (\<exists>es. trace s' = trace s @ es \<and> sleeps es = [] \<and> unitTrace (proxyMode s) es)"
proof (cases "pooled (proxyMode s)")
  case True
  then have notNone: "proxyMode s \<noteq> ModeNone" by (auto simp: pooled_def)
  have fetchOnly: "list_all isFetch es \<Longrightarrow> sleeps es = [] \<and> unitTrace (proxyMode s) es" for es
    using notNone seg_fetch[of es "[]"] by (simp add: unitTrace_def isFetch_sleeps isFetch_dispatched)
  have withTail: "list_all isFetch es \<Longrightarrow> seg ys \<Longrightarrow> sleeps ys = [] \<Longrightarrow> dispatched ys = [] \<Longrightarrow>
                  sleeps (es @ ys) = [] \<and> unitTrace (proxyMode s) (es @ ys)" for es ys
    using notNone seg_fetch[of es ys] by (simp add: unitTrace_def isFetch_sleeps isFetch_dispatched)
  from assms show ?thesis
  proof (cases rule: attempt_cases)
    case (noProxy e)
    from nextProxy_pooled[OF noProxy(1) True] obtain r0 where h: "handsOut s r0 s'" "Inl e = map_sum id Some r0" by auto
    then obtain e0 where "r0 = Inl e0" by (cases r0) auto
    with h obtain es where "list_all isFetch es" "trace s' = trace s @ es" "proxyMode s' = proxyMode s"
      by (auto simp: handsOut_def)
    then show ?thesis using fetchOnly by blast
  next
    case (badOptions cp e)
    from nextProxy_pooled[OF badOptions(1) True] obtain r0 where h: "handsOut s r0 s'" "Inr cp = map_sum id Some r0" by auto
    then obtain p where "r0 = Inr p" by (cases r0) auto
    with h obtain es where es: "list_all isFetch es" "trace s' = trace s @ es @ [Acquired p]" "proxyMode s' = proxyMode s"
      by (auto simp: handsOut_def)
    have "seg [Acquired p]" by (simp add: seg_def)
    from withTail[OF es(1) this] es show ?thesis by auto
  next
    case (launched cp s1 a)
    from nextProxy_pooled[OF launched(1) True] obtain r0 where h: "handsOut s r0 s1" "Inr cp = map_sum id Some r0" by auto
    then obtain p where p: "r0 = Inr p" "cp = Some p" by (cases r0) auto
    with h obtain es where es: "list_all isFetch es" "trace s1 = trace s @ es @ [Acquired p]" "proxyMode s1 = proxyMode s"
      by (auto simp: handsOut_def)
    have "seg [Acquired p, Launch (Some p) a]" by (simp add: seg_def)
    from withTail[OF es(1) this] es launched(3) p show ?thesis by (auto simp: emit_def)
  qed
next
  case False
  from assms show ?thesis
  proof (cases rule: attempt_cases)
    case (noProxy e)
    then show ?thesis using nextProxy_unpooled[OF noProxy(1) False] by simp
  next
    case (badOptions cp e)
    then show ?thesis using nextProxy_unpooled[OF badOptions(1) False] False
      by (auto simp: getBrowserOptions_def pooled_def split: if_splits)
  next
    case (launched cp s1 a)
    have s1: "cp = None" "s1 = s" using nextProxy_unpooled[OF launched(1) False] by auto
    have "proxyMode s = ModeNone \<Longrightarrow> a = None" using launched(2) s1 by (simp add: getBrowserOptions_def)
    then show ?thesis using launched(3) s1 False
      by (auto simp: emit_def unitTrace_def)
  qed
qed

lemma unitTrace_append: "unitTrace m xs \<Longrightarrow> unitTrace m ys \<Longrightarrow> unitTrace m (xs @ ys)"
  by (auto simp: unitTrace_def seg_append)

lemma unitTrace_Sleep [simp]: "unitTrace m [Sleep d]"
  by (simp add: unitTrace_def)

lemma newEvents_append [simp]: "trace s' = trace s @ es \<Longrightarrow> newEvents s s' = es"
  by (simp add: newEvents_def)

lemma scrapeWithRetry_unit:
  "scrapeWithRetry cfg env target n s = (r, s') \<Longrightarrow>
   proxyMode s' = proxyMode s \<and> (\<exists>es. trace s' = trace s @ es \<and> unitTrace (proxyMode s) es)"
proof (induction cfg env target n s arbitrary: r s' rule: scrapeWithRetry.induct)
  case (1 cfg env target retryCount s)
  obtain q s1 where a: "attempt cfg env target retryCount s = (q, s1)"
    by (cases "attempt cfg env target retryCount s")
  from attempt_unit[OF a] obtain es1 where
    m1: "proxyMode s1 = proxyMode s" and es1: "trace s1 = trace s @ es1" "unitTrace (proxyMode s) es1"
    by auto
  note run = "1.prems"[unfolded scrapeWithRetry.simps[of cfg env target retryCount s] a]
  show ?case
  proof (cases q)
    case (Inr status)
    then show ?thesis using run m1 es1 by auto
  next
    case (Inl error)
    show ?thesis
    proof (cases "isRetryable error \<and> retryCount < maxRetries cfg")
      case False
      then show ?thesis using run Inl m1 es1 by auto
    next
      case True
      define s2 where "s2 = emit (Sleep (arrayGet (backoffDelays cfg) retryCount)) s1"
      have rec: "scrapeWithRetry cfg env target (retryCount + 1) s2 = (r, s')"
        using run Inl True by (simp add: Let_def s2_def)
      from "1.IH"[OF a[symmetric] Inl True refl s2_def rec]
      obtain es2 where m2: "proxyMode s' = proxyMode s2" and es2: "trace s' = trace s2 @ es2" "unitTrace (proxyMode s2) es2"
        by auto
      have ms2: "proxyMode s2 = proxyMode s" using m1 by (simp add: s2_def emit_def)
      have "trace s' = trace s @ (es1 @ [Sleep (arrayGet (backoffDelays cfg) retryCount)] @ es2)"
        using es1 es2 by (simp add: s2_def emit_def)
      moreover have "unitTrace (proxyMode s) (es1 @ [Sleep (arrayGet (backoffDelays cfg) retryCount)] @ es2)"
        using es1(2) es2(2) ms2 unitTrace_Sleep
        by (auto intro!: unitTrace_append simp del: append_Cons append.simps)
      ultimately have "\<exists>es. trace s' = trace s @ es \<and> unitTrace (proxyMode s) es" by (intro exI conjI)
      then show ?thesis using m2 ms2 by simp
    qed
  qed
qed

text \<open>
  A call of \<^verbatim>\<open>scrapeWithRetry\<close> runs the attempts of its course one after the other,
  retries each that fails retryably while retries are left, and returns the result object
  of the first attempt that is not retried.
\<close>

lemma unitOutcome_0: "unitOutcome cfg env target 0 n s = attempt cfg env target n s"
  by (simp add: unitOutcome_def)

lemma unitOutcome_Suc:
  "unitOutcome cfg env target (Suc k) n s = unitOutcome cfg env target k (n + 1) (retryState cfg env target n s)"
  by (simp add: unitOutcome_def)

lemma scrapeWithRetry_course:
  "\<exists>k. n + k \<le> max n (maxRetries cfg) \<and>
       (\<forall>j<k. failsRetryably (fst (unitOutcome cfg env target j n s))) \<and>
       \<not> (failsRetryably (fst (unitOutcome cfg env target k n s)) \<and> n + k < maxRetries cfg) \<and>
       scrapeWithRetry cfg env target n s
         = (toResult (fst (unitOutcome cfg env target k n s)), snd (unitOutcome cfg env target k n s))"
proof (induction cfg env target n s rule: scrapeWithRetry.induct)
  case (1 cfg env target retryCount s)
  obtain q s1 where a: "attempt cfg env target retryCount s = (q, s1)"
    by (cases "attempt cfg env target retryCount s")
  have stop: ?case if "\<not> (failsRetryably q \<and> retryCount < maxRetries cfg)"
    "scrapeWithRetry cfg env target retryCount s = (toResult q, s1)"
    using that a by (intro exI[of _ 0]) (simp add: unitOutcome_0)
  show ?case
  proof (cases q)
    case (Inr status)
    then show ?thesis using a by (intro stop) (simp_all add: scrapeWithRetry.simps[of cfg env target retryCount s])
  next
    case (Inl error)
    show ?thesis
    proof (cases "isRetryable error \<and> retryCount < maxRetries cfg")
      case False
      then show ?thesis using a Inl
        by (intro stop) (auto simp: scrapeWithRetry.simps[of cfg env target retryCount s])
    next
      case True
      define s2 where "s2 = emit (Sleep (arrayGet (backoffDelays cfg) retryCount)) s1"
      have rs: "retryState cfg env target retryCount s = s2" using a by (simp add: retryState_def s2_def)
      have step: "scrapeWithRetry cfg env target retryCount s = scrapeWithRetry cfg env target (retryCount + 1) s2"
        using a Inl True by (subst scrapeWithRetry.simps) (simp add: Let_def s2_def)
      from "1.IH"[OF a[symmetric] Inl True refl s2_def] obtain k where
        k: "retryCount + 1 + k \<le> max (retryCount + 1) (maxRetries cfg)"
           "\<forall>j<k. failsRetryably (fst (unitOutcome cfg env target j (retryCount + 1) s2))"
           "\<not> (failsRetryably (fst (unitOutcome cfg env target k (retryCount + 1) s2)) \<and> retryCount + 1 + k < maxRetries cfg)"
           "scrapeWithRetry cfg env target (retryCount + 1) s2
             = (toResult (fst (unitOutcome cfg env target k (retryCount + 1) s2)), snd (unitOutcome cfg env target k (retryCount + 1) s2))"
        by blast
      have b: "retryCount + Suc k \<le> max retryCount (maxRetries cfg)" using k(1) True by simp
      have c: "\<forall>j<Suc k. failsRetryably (fst (unitOutcome cfg env target j retryCount s))"
      proof (intro allI impI)
        fix j assume "j < Suc k"
        show "failsRetryably (fst (unitOutcome cfg env target j retryCount s))"
        proof (cases j)
          case 0
          then show ?thesis using a Inl True by (simp add: unitOutcome_0)
        next
          case (Suc j')
          then show ?thesis using k(2) \<open>j < Suc k\<close> by (simp add: unitOutcome_Suc rs)
        qed
      qed
      have d: "\<not> (failsRetryably (fst (unitOutcome cfg env target (Suc k) retryCount s)) \<and> retryCount + Suc k < maxRetries cfg)"
        using k(3) by (simp add: unitOutcome_Suc rs)
      have e: "scrapeWithRetry cfg env target retryCount s
         = (toResult (fst (unitOutcome cfg env target (Suc k) retryCount s)), snd (unitOutcome cfg env target (Suc k) retryCount s))"
        using step k(4) by (simp add: unitOutcome_Suc rs)
      show ?thesis using b c d e by (intro exI[of _ "Suc k"] conjI)
    qed
  qed
qed





section \<open>The dispatchers\<close>

lemma tally_counts [simp]:
  "total (tally r res) = total res + 1"
  "successful (tally r res) + failed (tally r res) = successful res + failed res + 1"
  by (cases r; simp add: tally_def)+

lemma tallySettled_counts [simp]:
  "total (tallySettled m res) = total res + 1"
  "successful (tallySettled m res) + failed (tallySettled m res) = successful res + failed res + 1"
  by (cases m; simp add: tallySettled_def)+

lemma fold_tallySettled:
  "total (fold (\<lambda>w. tallySettled (f w)) ws res) = total res + length ws \<and>
   successful (fold (\<lambda>w. tallySettled (f w)) ws res) + failed (fold (\<lambda>w. tallySettled (f w)) ws res)
     = successful res + failed res + length ws"
  by (induction ws arbitrary: res) auto

lemma fold_Spawn:
  "trace (fold (\<lambda>w. emit (Spawn w)) ws s) = trace s @ map Spawn ws \<and>
   proxyMode (fold (\<lambda>w. emit (Spawn w)) ws s) = proxyMode s"
  by (induction ws arbitrary: s) (auto simp: emit_def)

lemma dispatched_Spawn [simp]: "dispatched (map Spawn ws) = ws"
  by (induction ws) auto

lemma overDirect_Spawn [simp]: "list_all overDirect (map Spawn ws)"
  by (induction ws) auto

lemma pause_trace:
  "trace (pause env s) = trace s @ [Random, Sleep (Some (3000 + mathRandom env (now s) mod 4000))]"
  "proxyMode (pause env s) = proxyMode s"
  by (simp_all add: pause_def emit_def now_def)

lemma directLaunchOrSleep_overDirect: "list_all directLaunchOrSleep es \<Longrightarrow> list_all overDirect es"
  by (induction es) (auto elim: directLaunchOrSleep.elims)

lemma sequentialLoop_run:
  "sequentialLoop cfg env target i (res, s) = (res', s') \<Longrightarrow> i \<le> totalRequests cfg \<Longrightarrow>
   total res' = total res + (totalRequests cfg - i) \<and>
   successful res' + failed res' = successful res + failed res + (totalRequests cfg - i) \<and>
   proxyMode s' = proxyMode s \<and>
   (\<exists>es. trace s' = trace s @ es \<and> dispatched es = [i + 1..<totalRequests cfg + 1] \<and>
         (proxyMode s = ModeNone \<longrightarrow> list_all overDirect es))"
proof (induction cfg env target i "(res, s)" arbitrary: res s rule: sequentialLoop.induct)
  case (1 cfg env target i res s)
  show ?case
  proof (cases "i < totalRequests cfg")
    case False
    then show ?thesis using "1.prems" by (simp add: sequentialLoop.simps)
  next
    case True
    define s0 where "s0 = emit (Request (i + 1)) s"
    obtain r s1 where run: "scrapeWithRetry cfg env target 0 s0 = (r, s1)"
      by (cases "scrapeWithRetry cfg env target 0 s0")
    define s2 where "s2 = (if i < totalRequests cfg - 1 then pause env s1 else s1)"
    have rec: "sequentialLoop cfg env target (i + 1) (tally r res, s2) = (res', s')"
      using "1.prems"(1) True run by (simp add: sequentialLoop.simps[of cfg env target i] s0_def s2_def)
    from scrapeWithRetry_unit[OF run] obtain es1 where
      m1: "proxyMode s1 = proxyMode s0" and es1: "trace s1 = trace s0 @ es1" "unitTrace (proxyMode s0) es1"
      by auto
    have m0: "proxyMode s0 = proxyMode s" by (simp add: s0_def emit_def)
    obtain es2 where m2: "proxyMode s2 = proxyMode s1" and es2: "trace s2 = trace s1 @ es2"
      "dispatched es2 = []" "list_all overDirect es2"
      by (cases "i < totalRequests cfg - 1") (auto simp: s2_def pause_trace)
    from "1.hyps"[OF True run[unfolded s0_def, symmetric] rec[unfolded s2_def]] True
    obtain es3 where
      c: "total res' = total (tally r res) + (totalRequests cfg - (i + 1))"
         "successful res' + failed res' = successful (tally r res) + failed (tally r res) + (totalRequests cfg - (i + 1))"
         "proxyMode s' = proxyMode s2"
      and es3: "trace s' = trace s2 @ es3" "dispatched es3 = [i + 1 + 1..<totalRequests cfg + 1]"
         "proxyMode s2 = ModeNone \<longrightarrow> list_all overDirect es3"
      by (auto simp: s2_def)
    have tr: "trace s' = trace s @ (Request (i + 1) # es1 @ es2 @ es3)"
      using es1 es2 es3 by (simp add: s0_def emit_def)
    have d: "dispatched (Request (i + 1) # es1 @ es2 @ es3) = [i + 1..<totalRequests cfg + 1]"
      using es1(2) es2(2) es3(2) True by (simp add: unitTrace_def upt_conv_Cons)
    have o: "proxyMode s = ModeNone \<longrightarrow> list_all overDirect (Request (i + 1) # es1 @ es2 @ es3)"
      using es1(2) es2(3) es3(3) m0 m1 m2 by (auto simp: unitTrace_def directLaunchOrSleep_overDirect)
    have "\<exists>es. trace s' = trace s @ es \<and> dispatched es = [i + 1..<totalRequests cfg + 1] \<and>
         (proxyMode s = ModeNone \<longrightarrow> list_all overDirect es)"
      using tr d o by (intro exI conjI)
    moreover have "total res' = total res + (totalRequests cfg - i)"
      "successful res' + failed res' = successful res + failed res + (totalRequests cfg - i)"
      using c(1,2) True by (simp_all del: upt_Suc) 
    ultimately show ?thesis using c(3) m0 m1 m2 by simp
  qed
qed

lemma batchIds_step: "b < numBatches cfg \<Longrightarrow> batchIds cfg b = launchBatch cfg b 0 @ batchIds cfg (b + 1)"
  by (simp add: batchIds_def upt_conv_Cons)

lemma batchIds_done: "\<not> b < numBatches cfg \<Longrightarrow> batchIds cfg b = []"
  by (simp add: batchIds_def)

lemma batchLoop_run:
  "batchLoop cfg env wenv werr target b (res, s) = (res', s') \<Longrightarrow>
   total res' = total res + length (batchIds cfg b) \<and>
   successful res' + failed res' = successful res + failed res + length (batchIds cfg b) \<and>
   proxyMode s' = proxyMode s \<and>
   (\<exists>es. trace s' = trace s @ es \<and> dispatched es = batchIds cfg b \<and> list_all overDirect es)"
proof (induction cfg env wenv werr target b "(res, s)" arbitrary: res s rule: batchLoop.induct)
  case (1 cfg env wenv werr target batch res s)
  show ?case
  proof (cases "batch < numBatches cfg")
    case False
    then show ?thesis using "1.prems" by (simp add: batchLoop.simps batchIds_done)
  next
    case True
    define workers where "workers = launchBatch cfg batch 0"
    define s1 where "s1 = fold (\<lambda>workerId. emit (Spawn workerId)) workers s"
    define res1 where "res1 = fold (\<lambda>workerId. tallySettled (runWorker cfg wenv werr target workerId)) workers res"
    define s2 where "s2 = (if batch < numBatches cfg - 1 then pause env s1 else s1)"
    have rec: "batchLoop cfg env wenv werr target (batch + 1) (res1, s2) = (res', s')"
      using "1.prems"(1) True unfolding workers_def s1_def res1_def s2_def
      by (simp add: batchLoop.simps[of cfg env wenv werr target batch] Let_def split del: if_split)
    have t1: "trace s1 = trace s @ map Spawn workers" "proxyMode s1 = proxyMode s"
      using fold_Spawn[of workers s] by (simp_all add: s1_def)
    have r1: "total res1 = total res + length workers"
      "successful res1 + failed res1 = successful res + failed res + length workers"
      using fold_tallySettled[of "runWorker cfg wenv werr target" workers res] by (simp_all add: res1_def)
    obtain es2 where m2: "proxyMode s2 = proxyMode s1" and es2: "trace s2 = trace s1 @ es2"
      "dispatched es2 = []" "list_all overDirect es2"
      by (cases "batch < numBatches cfg - 1") (auto simp: s2_def pause_trace)
    from "1.hyps"[OF True workers_def s1_def res1_def rec[unfolded s2_def]]
    obtain es3 where
      c: "total res' = total res1 + length (batchIds cfg (batch + 1))"
         "successful res' + failed res' = successful res1 + failed res1 + length (batchIds cfg (batch + 1))"
         "proxyMode s' = proxyMode s2"
      and es3: "trace s' = trace s2 @ es3" "dispatched es3 = batchIds cfg (batch + 1)" "list_all overDirect es3"
      by (auto simp: s2_def)
    have ids: "batchIds cfg batch = workers @ batchIds cfg (batch + 1)"
      using batchIds_step[OF True] by (simp add: workers_def)
    have tr: "trace s' = trace s @ (map Spawn workers @ es2 @ es3)"
      using t1 es2 es3 by simp
    have d: "dispatched (map Spawn workers @ es2 @ es3) = batchIds cfg batch"
      using es2(2) es3(2) ids by simp
    have o: "list_all overDirect (map Spawn workers @ es2 @ es3)"
      using es2(3) es3(3) by simp
    have "\<exists>es. trace s' = trace s @ es \<and> dispatched es = batchIds cfg batch \<and> list_all overDirect es"
      using tr d o by (intro exI conjI)
    moreover have "total res' = total res + length (batchIds cfg batch)"
      "successful res' + failed res' = successful res + failed res + length (batchIds cfg batch)"
      using c(1,2) r1 ids by simp_all
    ultimately show ?thesis using c(3) m2 t1(2) by simp
  qed
qed

lemma concat_batches_upto:
  "0 < maxConcurrent cfg \<Longrightarrow>
   concat (map (\<lambda>k. launchBatch cfg k 0) [0..<n]) = map Suc [0..<min (n * maxConcurrent cfg) (totalRequests cfg)]"
proof (induction n)
  case 0
  then show ?case by simp
next
  case (Suc n)
  let ?c = "maxConcurrent cfg" and ?t = "totalRequests cfg"
  have "[0..<min (n * ?c) ?t] @ [n * ?c..<min (n * ?c + ?c) ?t] = [0..<min (Suc n * ?c) ?t]"
  proof (cases "n * ?c \<le> ?t")
    case True
    then have "[0..<min (n * ?c) ?t] @ [n * ?c..<min (n * ?c + ?c) ?t] = [0..<n * ?c] @ [n * ?c..<min (n * ?c + ?c) ?t]"
      by (simp add: min_def)
    also have "\<dots> = [0..<min (n * ?c + ?c) ?t]"
    proof -
      obtain k where k: "min (n * ?c + ?c) ?t = n * ?c + k"
        using True by (metis le_add1 le_iff_add min.boundedI)
      show ?thesis unfolding k using upt_add_eq_append[of 0 "n * ?c" k] by simp
    qed
    finally show ?thesis by (simp add: add.commute)
  next
    case False
    then show ?thesis by (simp add: min_def)
  qed
  then have "map Suc [0..<min (n * ?c) ?t] @ map Suc [n * ?c..<min (n * ?c + ?c) ?t] = map Suc [0..<min (Suc n * ?c) ?t]"
    by (simp only: map_append[symmetric])
  moreover have "concat (map (\<lambda>k. launchBatch cfg k 0) [0..<Suc n])
      = concat (map (\<lambda>k. launchBatch cfg k 0) [0..<n]) @ launchBatch cfg n 0"
    by simp
  moreover have "launchBatch cfg n 0 = map Suc [n * ?c..<min (n * ?c + ?c) ?t]"
    by (simp add: launchBatch_eq)
  ultimately show ?case using Suc by simp
qed

lemma batchIds_all:
  assumes "0 < maxConcurrent cfg"
  shows "batchIds cfg 0 = [1..<totalRequests cfg + 1]"
proof -
  have "batchIds cfg 0 = map Suc [0..<totalRequests cfg]"
    using numBatches_bounds(1)[OF assms]
    by (simp add: batchIds_def concat_batches_upto[OF assms] min_def)
  also have "\<dots> = [1..<totalRequests cfg + 1]"
    by (simp add: map_Suc_upt del: upt_Suc)
  finally show ?thesis .
qed

lemma initializeProxies_trace:
  "\<exists>es. trace (initializeProxies cfg env s) = trace s @ es \<and> list_all isFetch es"
proof -
  have a: "extends isFetch s (snd (fetchProxiflyProxies cfg env True s))"
    using fetchProxiflyProxies_frame[of s cfg env True] by (simp add: frame_def)
  have b: "extends isFetch s (snd (fetchFreeProxyList cfg env 0 s))"
    using fetchFreeProxyList_frame[of s cfg env 0] by (simp add: frame_def)
  show ?thesis using a b
    by (auto simp: initializeProxies_def extends_def split: prod.splits sum.splits)
qed

lemma isFetch_overDirect: "list_all isFetch es \<Longrightarrow> list_all overDirect es"
  by (induction es) (auto elim: isFetch.elims)


lemma runSequentialScraping_run:
  assumes "runSequentialScraping cfg env target s = (res, s')"
  shows "total res = totalRequests cfg" "successful res + failed res = totalRequests cfg"
    "dispatched (newEvents s s') = [1..<totalRequests cfg + 1]"
proof -
  define s0 where "s0 = initializeProxies cfg env s"
  from initializeProxies_trace[of cfg env s] obtain es0 where
    es0: "trace s0 = trace s @ es0" "list_all isFetch es0" by (auto simp: s0_def)
  have loop: "sequentialLoop cfg env target 0 (emptyResults, s0) = (res, s')"
    using assms by (simp add: runSequentialScraping_def s0_def)
  from sequentialLoop_run[OF loop] obtain es where
    c: "total res = total emptyResults + (totalRequests cfg - 0)"
       "successful res + failed res = successful emptyResults + failed emptyResults + (totalRequests cfg - 0)"
    and es: "trace s' = trace s0 @ es" "dispatched es = [0 + 1..<totalRequests cfg + 1]"
    by auto
  show "total res = totalRequests cfg" "successful res + failed res = totalRequests cfg"
    using c by (simp_all add: emptyResults_def)
  have "trace s' = trace s @ (es0 @ es)" using es0 es by simp
  then have "newEvents s s' = es0 @ es" by (rule newEvents_append)
  then show "dispatched (newEvents s s') = [1..<totalRequests cfg + 1]"
    using es(2) es0(2) by (simp add: isFetch_dispatched del: upt_Suc)
qed

lemma runConcurrentScraping_run:
  assumes "runConcurrentScraping cfg env wenv werr target s = (res, s')" and "0 < maxConcurrent cfg"
  shows "total res = totalRequests cfg" "successful res + failed res = totalRequests cfg"
    "dispatched (newEvents s s') = [1..<totalRequests cfg + 1]"
proof -
  define s0 where "s0 = initializeProxies cfg env s"
  from initializeProxies_trace[of cfg env s] obtain es0 where
    es0: "trace s0 = trace s @ es0" "list_all isFetch es0" by (auto simp: s0_def)
  have loop: "batchLoop cfg env wenv werr target 0 (emptyResults, s0) = (res, s')"
    using assms by (simp add: runConcurrentScraping_def s0_def)
  have len: "length (batchIds cfg 0) = totalRequests cfg"
    using batchIds_all[OF assms(2)] by simp
  from batchLoop_run[OF loop] obtain es where
    c: "total res = total emptyResults + length (batchIds cfg 0)"
       "successful res + failed res = successful emptyResults + failed emptyResults + length (batchIds cfg 0)"
    and es: "trace s' = trace s0 @ es" "dispatched es = batchIds cfg 0"
    by auto
  show "total res = totalRequests cfg" "successful res + failed res = totalRequests cfg"
    using c len by (simp_all add: emptyResults_def)
  have "trace s' = trace s @ (es0 @ es)" using es0 es by simp
  then have "newEvents s s' = es0 @ es" by (rule newEvents_append)
  then show "dispatched (newEvents s s') = [1..<totalRequests cfg + 1]"
    using es(2) es0(2) batchIds_all[OF assms(2)] by (simp add: isFetch_dispatched del: upt_Suc)
qed


text \<open>
  When every page visit fails, every attempt throws, every work unit ends in the failed
  result, and both dispatchers count every request as failed.
\<close>

lemma attempt_down:
  assumes "\<forall>t u a. visitFails (browse env t u a)"
  shows "\<exists>e s'. attempt cfg env target n s = (Inl e, s')"
proof -
  obtain q s1 where np: "nextProxy cfg env s = (q, s1)" by (cases "nextProxy cfg env s")
  show ?thesis
  proof (cases q)
    case (Inl e)
    then show ?thesis using np by (simp add: attempt_def)
  next
    case (Inr cp)
    show ?thesis
    proof (cases "getBrowserOptions cfg s1 cp")
      case (Inl e)
      then show ?thesis using np Inr by (simp add: attempt_def)
    next
      case opts: (Inr a)
      have "visitFails (browse env (now s1) target a)" using assms by simp
      then show ?thesis using np Inr opts unfolding attempt_def Let_def
        by (cases "browse env (now s1) target a") (auto split: option.splits)
    qed
  qed
qed

lemma scrapeWithRetry_down:
  assumes "\<forall>t u a. visitFails (browse env t u a)"
  shows "\<exists>msg s'. scrapeWithRetry cfg env target n s = (Failed msg, s')"
proof -
  from scrapeWithRetry_course[of n cfg env target s] obtain k where
    k: "scrapeWithRetry cfg env target n s
         = (toResult (fst (unitOutcome cfg env target k n s)), snd (unitOutcome cfg env target k n s))"
    by blast
  from attempt_down[OF assms] obtain e s' where "unitOutcome cfg env target k n s = (Inl e, s')"
    unfolding unitOutcome_def by blast
  then show ?thesis using k by simp
qed

lemma sequentialLoop_down:
  "\<forall>t u a. visitFails (browse env t u a) \<Longrightarrow>
   sequentialLoop cfg env target i (res, s) = (res', s') \<Longrightarrow>
   failed res' = failed res + (totalRequests cfg - i) \<and> successful res' = successful res"
proof (induction cfg env target i "(res, s)" arbitrary: res s rule: sequentialLoop.induct)
  case (1 cfg env target i res s)
  show ?case
  proof (cases "i < totalRequests cfg")
    case False
    then show ?thesis using "1.prems"(2) by (simp add: sequentialLoop.simps)
  next
    case True
    define s0 where "s0 = emit (Request (i + 1)) s"
    from scrapeWithRetry_down[OF "1.prems"(1)] obtain msg s1 where
      run: "scrapeWithRetry cfg env target 0 s0 = (Failed msg, s1)" by blast
    define s2 where "s2 = (if i < totalRequests cfg - 1 then pause env s1 else s1)"
    have rec: "sequentialLoop cfg env target (i + 1) (tally (Failed msg) res, s2) = (res', s')"
      using "1.prems"(2) True run by (simp add: sequentialLoop.simps[of cfg env target i] s0_def s2_def)
    from "1.hyps"[OF True run[unfolded s0_def, symmetric] "1.prems"(1) rec[unfolded s2_def]]
    have "failed res' = failed (tally (Failed msg) res) + (totalRequests cfg - (i + 1))"
      "successful res' = successful (tally (Failed msg) res)" by simp_all
    then show ?thesis using True by (simp add: tally_def)
  qed
qed

lemma runWorker_down:
  assumes "\<forall>t u a. visitFails (browse (wenv w) t u a)"
  shows "failed (tallySettled (runWorker cfg wenv werr target w) res) = failed res + 1 \<and>
         successful (tallySettled (runWorker cfg wenv werr target w) res) = successful res"
proof (cases "werr w")
  case None
  from scrapeWithRetry_down[OF assms] obtain msg s' where
    "workerThread cfg (wenv w) target = (Failed msg, s')" unfolding workerThread_def by blast
  then show ?thesis using None by (simp add: runWorker_def tallySettled_def tally_def)
next
  case (Some m)
  then show ?thesis by (simp add: runWorker_def tallySettled_def)
qed

lemma fold_runWorker_down:
  assumes "\<forall>w t u a. visitFails (browse (wenv w) t u a)"
  shows "failed (fold (\<lambda>w. tallySettled (runWorker cfg wenv werr target w)) ws res) = failed res + length ws \<and>
         successful (fold (\<lambda>w. tallySettled (runWorker cfg wenv werr target w)) ws res) = successful res"
proof (induction ws arbitrary: res)
  case Nil
  then show ?case by simp
next
  case (Cons w ws)
  have "\<forall>t u a. visitFails (browse (wenv w) t u a)" using assms by simp
  with runWorker_down[of wenv w cfg werr target res] Cons[of "tallySettled (runWorker cfg wenv werr target w) res"]
  show ?case by simp
qed

lemma batchLoop_down:
  "\<forall>w t u a. visitFails (browse (wenv w) t u a) \<Longrightarrow>
   batchLoop cfg env wenv werr target b (res, s) = (res', s') \<Longrightarrow>
   failed res' = failed res + length (batchIds cfg b) \<and> successful res' = successful res"
proof (induction cfg env wenv werr target b "(res, s)" arbitrary: res s rule: batchLoop.induct)
  case (1 cfg env wenv werr target batch res s)
  show ?case
  proof (cases "batch < numBatches cfg")
    case False
    then show ?thesis using "1.prems"(2) by (simp add: batchLoop.simps batchIds_done)
  next
    case True
    define workers where "workers = launchBatch cfg batch 0"
    define s1 where "s1 = fold (\<lambda>workerId. emit (Spawn workerId)) workers s"
    define res1 where "res1 = fold (\<lambda>workerId. tallySettled (runWorker cfg wenv werr target workerId)) workers res"
    define s2 where "s2 = (if batch < numBatches cfg - 1 then pause env s1 else s1)"
    have rec: "batchLoop cfg env wenv werr target (batch + 1) (res1, s2) = (res', s')"
      using "1.prems"(2) True unfolding workers_def s1_def res1_def s2_def
      by (simp add: batchLoop.simps[of cfg env wenv werr target batch] Let_def split del: if_split)
    have r1: "failed res1 = failed res + length workers" "successful res1 = successful res"
      using fold_runWorker_down[OF "1.prems"(1), of cfg werr target workers res] by (simp_all add: res1_def)
    from "1.hyps"[OF True workers_def s1_def res1_def "1.prems"(1) rec[unfolded s2_def]]
    have c: "failed res' = failed res1 + length (batchIds cfg (batch + 1))" "successful res' = successful res1"
      by simp_all
    have ids: "batchIds cfg batch = workers @ batchIds cfg (batch + 1)"
      using batchIds_step[OF True] by (simp add: workers_def)
    show ?thesis using c r1 ids by simp
  qed
qed

lemma runSequentialScraping_down:
  assumes "\<forall>t u a. visitFails (browse env t u a)"
  shows "fst (runSequentialScraping cfg env target s)
         = \<lparr>successful = 0, failed = totalRequests cfg, total = totalRequests cfg\<rparr>"
proof -
  obtain res s' where run: "runSequentialScraping cfg env target s = (res, s')"
    by (cases "runSequentialScraping cfg env target s")
  then have loop: "sequentialLoop cfg env target 0 (emptyResults, initializeProxies cfg env s) = (res, s')"
    by (simp add: runSequentialScraping_def)
  from sequentialLoop_down[OF assms loop] runSequentialScraping_run(1)[OF run]
  show ?thesis using run by (simp add: emptyResults_def)
qed

lemma runConcurrentScraping_down:
  assumes "\<forall>w t u a. visitFails (browse (wenv w) t u a)" and "0 < maxConcurrent cfg"
  shows "fst (runConcurrentScraping cfg env wenv werr target s)
         = \<lparr>successful = 0, failed = totalRequests cfg, total = totalRequests cfg\<rparr>"
proof -
  obtain res s' where run: "runConcurrentScraping cfg env wenv werr target s = (res, s')"
    by (cases "runConcurrentScraping cfg env wenv werr target s")
  then have loop: "batchLoop cfg env wenv werr target 0 (emptyResults, initializeProxies cfg env s) = (res, s')"
    by (simp add: runConcurrentScraping_def)
  have len: "length (batchIds cfg 0) = totalRequests cfg"
    using batchIds_all[OF assms(2)] by simp
  from batchLoop_down[OF assms(1) loop] runConcurrentScraping_run(1)[OF run assms(2)] len
  show ?thesis using run by (simp add: emptyResults_def)
qed

lemma attempt_Inr: "attempt cfg env target n s = (Inr status, s') \<Longrightarrow> status < 400"
  unfolding attempt_def Let_def
  by (auto split: prod.splits sum.splits visit.splits if_splits option.splits)

lemma scrapeWithRetry_result:
  "scrapeWithRetry cfg env target n s = (r, s') \<Longrightarrow>
   (case r of
      Success status \<Rightarrow> status < 400
    | Failed msg \<Rightarrow> \<exists>k t e. attempt cfg env target k t = (Inl e, s') \<and> msg = message e)"
proof (induction cfg env target n s arbitrary: r s' rule: scrapeWithRetry.induct)
  case (1 cfg env target retryCount s)
  obtain q s1 where a: "attempt cfg env target retryCount s = (q, s1)"
    by (cases "attempt cfg env target retryCount s")
  note run = "1.prems"[unfolded scrapeWithRetry.simps[of cfg env target retryCount s] a]
  show ?case
  proof (cases q)
    case (Inr status)
    then show ?thesis using run a attempt_Inr by auto
  next
    case (Inl error)
    show ?thesis
    proof (cases "isRetryable error \<and> retryCount < maxRetries cfg")
      case False
      then have "r = Failed (message error)" "s' = s1" using run Inl by auto
      moreover have "\<exists>k t e. attempt cfg env target k t = (Inl e, s1) \<and> message error = message e"
        using a Inl by blast
      ultimately show ?thesis by simp
    next
      case True
      define s2 where "s2 = emit (Sleep (arrayGet (backoffDelays cfg) retryCount)) s1"
      have rec: "scrapeWithRetry cfg env target (retryCount + 1) s2 = (r, s')"
        using run Inl True by (simp add: Let_def s2_def)
      from "1.IH"[OF a[symmetric] Inl True refl s2_def rec] show ?thesis .
    qed
  qed
qed

lemma scrapeWithRetry_sleeps:
  "scrapeWithRetry cfg env target n s = (r, s') \<Longrightarrow>
   \<exists>k. n + k \<le> max n (maxRetries cfg) \<and>
       sleeps (newEvents s s') = map (arrayGet (backoffDelays cfg)) [n..<n + k]"
proof (induction cfg env target n s arbitrary: r s' rule: scrapeWithRetry.induct)
  case (1 cfg env target retryCount s)
  obtain q s1 where a: "attempt cfg env target retryCount s = (q, s1)"
    by (cases "attempt cfg env target retryCount s")
  from attempt_unit[OF a] obtain es1 where es1: "trace s1 = trace s @ es1" "sleeps es1 = []" by auto
  note run = "1.prems"[unfolded scrapeWithRetry.simps[of cfg env target retryCount s] a]
  have stop: "s' = s1 \<Longrightarrow> ?case"
    using es1 by (intro exI[of _ 0]) simp
  show ?case
  proof (cases q)
    case (Inr status)
    then show ?thesis using run stop by auto
  next
    case (Inl error)
    show ?thesis
    proof (cases "isRetryable error \<and> retryCount < maxRetries cfg")
      case False
      then show ?thesis using run Inl stop by auto
    next
      case True
      define s2 where "s2 = emit (Sleep (arrayGet (backoffDelays cfg) retryCount)) s1"
      have rec: "scrapeWithRetry cfg env target (retryCount + 1) s2 = (r, s')"
        using run Inl True by (simp add: Let_def s2_def)
      from "1.IH"[OF a[symmetric] Inl True refl s2_def rec] obtain k where
        k: "retryCount + 1 + k \<le> max (retryCount + 1) (maxRetries cfg)"
           "sleeps (newEvents s2 s') = map (arrayGet (backoffDelays cfg)) [retryCount + 1..<retryCount + 1 + k]"
        by auto
      from scrapeWithRetry_unit[OF rec] obtain es2 where es2: "trace s' = trace s2 @ es2" by auto
      have tr: "trace s' = trace s @ (es1 @ [Sleep (arrayGet (backoffDelays cfg) retryCount)] @ es2)"
        using es1 es2 by (simp add: s2_def emit_def)
      have "sleeps es2 = map (arrayGet (backoffDelays cfg)) [retryCount + 1..<retryCount + 1 + k]"
        using k(2) es2 by simp
      moreover have "[retryCount..<retryCount + (k + 1)] = retryCount # [retryCount + 1..<retryCount + 1 + k]"
        by (simp add: upt_conv_Cons del: upt_Suc)
      ultimately have "sleeps (newEvents s s') = map (arrayGet (backoffDelays cfg)) [retryCount..<retryCount + (k + 1)]"
        using tr es1(2) by (simp del: upt_Suc)
      moreover have "retryCount + (k + 1) \<le> max retryCount (maxRetries cfg)"
        using k(1) True by simp
      ultimately show ?thesis by blast
    qed
  qed
qed


section \<open>Evaluating concrete runs\<close>

lemmas string_defs = parseLines_def trim_def isSpace_def newline_def startsWith_def show_nat.simps
  digit_char_def quoted_def

lemmas pool_defs = initializeProxies_def initialGlobals_def fetchFreeProxyList.simps
  fetchProxiflyProxies.simps getNextFreeProxy_def takeFreeProxy_def getNextProxiflyProxy_def
  takeProxiflyProxy_def getProxyId_def lineProxy_def emit_def now_def MAX_FETCH_ATTEMPTS_def
  Error_def TypeError_def spliceOut_def Let_def

lemmas unit_defs = scrapeWithRetry.simps attempt_def nextProxy_def getBrowserOptions_def
  isRetryable_def arrayGet_def orElse_def

lemmas run_defs = runSequentialScraping_def sequentialLoop.simps pause_def tally_def
  emptyResults_def runConcurrentScraping_def batchLoop.simps launchBatch.simps numBatches_def
  runWorker_def workerThread_def tallySettled_def workerProxies_def newEvents_def


lemma repeatNextFree_numeral:
  "repeatNextFree cfg env (numeral k) s =
     (case getNextFreeProxy cfg env s of
        (r, s1) \<Rightarrow> (case repeatNextFree cfg env (pred_numeral k) s1 of (rs, s2) \<Rightarrow> (r # rs, s2)))"
  by (simp add: numeral_eq_Suc)

lemma repeatNextProxifly_numeral:
  "repeatNextProxifly cfg env (numeral k) s =
     (case getNextProxiflyProxy cfg env s of
        (r, s1) \<Rightarrow> (case repeatNextProxifly cfg env (pred_numeral k) s1 of (rs, s2) \<Rightarrow> (r # rs, s2)))"
  by (simp add: numeral_eq_Suc)


text \<open>
  In proxifly mode, starting with a counter of zero, the exhausted pool is reported after
  exactly five calls of the API.
\<close>

lemma proxifly_exhaustion_after_five_calls:
  "map (map_sum message getProxyId)
     (fst (repeatNextProxifly keyConfig proxiflyEnv 2
            (initializeProxies keyConfig proxiflyEnv (initialGlobals keyConfig))))
   = [Inr ''1.1.1.1:80'',
      Inl ''Failed to fetch new proxies: Unable to fetch new unique proxies after 5 attempts. All available proxies may have been used.'']
   \<and> apiCalls (newEvents
         (initializeProxies keyConfig proxiflyEnv (initialGlobals keyConfig))
         (snd (repeatNextProxifly keyConfig proxiflyEnv 2
            (initializeProxies keyConfig proxiflyEnv (initialGlobals keyConfig))))) = 5"
  by (simp add: pool_defs string_defs keyConfig_def CONFIG_def proxiflyEnv_def apiProxy_def
      repeatNextProxifly_numeral newEvents_def)


section \<open>Supporting facts for the claims that fail\<close>

text \<open>Whatever the pool manager hands out is in the registry afterwards.\<close>

lemma consumption_registers:
  "getNextFreeProxy cfg env s = (Inr p, s') \<Longrightarrow> getProxyId p \<in> usedProxies s'"
  "getNextProxiflyProxy cfg env s = (Inr p, s') \<Longrightarrow> getProxyId p \<in> usedProxies s'"
  using getNextFreeProxy_handsOut[of cfg env s "Inr p" s']
        getNextProxiflyProxy_handsOut[of cfg env s "Inr p" s']
  by (simp_all add: handsOut_def)

text \<open>
  The sequential dispatcher after a failed first fetch: the mode is none, and the whole
  run takes no record from a pool and launches every browser with no proxy.
\<close>

lemma startup_fallback:
  "proxyMode s = ModeProxifly \<Longrightarrow> fetchProxiflyProxies cfg env True s = (Inl e, s1) \<Longrightarrow>
   proxyMode (initializeProxies cfg env s) = ModeNone"
  "proxyMode s = ModeFreeProxyList \<Longrightarrow> fetchFreeProxyList cfg env 0 s = (Inl e, s1) \<Longrightarrow>
   proxyMode (initializeProxies cfg env s) = ModeNone"
  by (simp_all add: initializeProxies_def)

lemma sequential_fallback_direct:
  assumes "proxyMode (initializeProxies cfg env s) = ModeNone"
  shows "list_all overDirect (newEvents s (snd (runSequentialScraping cfg env target s)))"
    and "proxyMode (snd (runSequentialScraping cfg env target s)) = ModeNone"
proof -
  define s0 where "s0 = initializeProxies cfg env s"
  obtain res s' where run: "runSequentialScraping cfg env target s = (res, s')"
    by (cases "runSequentialScraping cfg env target s")
  from initializeProxies_trace[of cfg env s] obtain es0 where
    es0: "trace s0 = trace s @ es0" "list_all isFetch es0" by (auto simp: s0_def)
  have loop: "sequentialLoop cfg env target 0 (emptyResults, s0) = (res, s')"
    using run by (simp add: runSequentialScraping_def s0_def)
  from sequentialLoop_run[OF loop] assms obtain es where
    m: "proxyMode s' = proxyMode s0" and es: "trace s' = trace s0 @ es" "list_all overDirect es"
    by (auto simp: s0_def)
  have "trace s' = trace s @ (es0 @ es)" using es0 es by simp
  then have "newEvents s s' = es0 @ es" by (rule newEvents_append)
  then show "list_all overDirect (newEvents s (snd (runSequentialScraping cfg env target s)))"
    using es(2) isFetch_overDirect[OF es0(2)] run by simp
  show "proxyMode (snd (runSequentialScraping cfg env target s)) = ModeNone"
    using m assms run by (simp add: s0_def)
qed

text \<open>
  The outcomes of a concurrent run do not depend on the state of the main thread, its
  registry included, nor on what the main thread fetched.
\<close>

lemma batchLoop_ignores_main:
  "fst (batchLoop cfg env wenv werr target b (res, s)) = fst (batchLoop cfg env' wenv werr target b (res, s'))"
proof (induction cfg env wenv werr target b "(res, s)" arbitrary: res s s' rule: batchLoop.induct)
  case (1 cfg env wenv werr target batch res s)
  show ?case
  proof (cases "batch < numBatches cfg")
    case False
    then show ?thesis by (simp add: batchLoop.simps)
  next
    case True
    show ?thesis
      using "1.hyps"[OF True refl refl refl] True
      by (simp add: batchLoop.simps[of cfg _ wenv werr target batch] Let_def split del: if_split)
  qed
qed

lemma workers_ignore_main:
  "fst (runConcurrentScraping cfg env wenv werr target s) = fst (runConcurrentScraping cfg env' wenv werr target s')"
  unfolding runConcurrentScraping_def by (rule batchLoop_ignores_main)

section \<open>No repeat when no listing repeats a line\<close>

lemma parseLines_nonempty: "l \<in> set (parseLines data) \<Longrightarrow> l \<noteq> []"
  by (simp add: parseLines_def)

lemma lineProxy_ids: "\<forall>l \<in> set ls. l \<noteq> [] \<Longrightarrow> map getProxyId (map (lineProxy src) ls) = ls"
  by (induction ls) (simp_all add: getProxyId_def lineProxy_def)

lemma distinct_filter_ids:
  "distinct (map f xs) \<Longrightarrow> distinct (map f (filter P xs))"
  by (induction xs) auto

lemma fetched_trans:
  "fetched s (Inl e) s1 \<Longrightarrow> fetched s1 r s2 \<Longrightarrow> fetched s r s2"
  by (cases r) (auto simp: fetched_def)

lemma fetched_emit: "fetched s (Inl e) (emit ev s)"
  by (simp add: fetched_def emit_def)

lemma fetched_Inl: "fetched s (Inl e) s' \<Longrightarrow> fetched s (Inl e') s'"
  by (simp add: fetched_def)

lemma fetchFreeProxyList_fetched:
  "listsDistinct env \<Longrightarrow>
   fetched s (fst (fetchFreeProxyList cfg env i s)) (snd (fetchFreeProxyList cfg env i s))"
proof (induction cfg env i s rule: fetchFreeProxyList.induct)
  case (1 cfg env sourceIndex s)
  note ld = "1.prems"
  show ?case
  proof (cases "sourceIndex \<ge> length (freeSources cfg)")
    case True
    then show ?thesis by (subst (1 2) fetchFreeProxyList.simps) (simp add: fetched_def)
  next
    case False
    define src where "src = freeSources cfg ! sourceIndex"
    define s1 where "s1 = emit (NetGet (url src)) s"
    define fresh where "fresh = (\<lambda>data. filter (\<lambda>p. getProxyId p \<notin> usedProxies s1) (map (lineProxy src) (parseLines data)))"
    define tried where "tried =
      (case fetchFromUrl env (now s) (url src) of
         Inl e \<Rightarrow> (Inl e, s1)
       | Inr data \<Rightarrow>
           if fresh data = [] then fetchFreeProxyList cfg env (sourceIndex + 1) s1
           else (Inr (fresh data),
                 s1\<lparr>freeProxyList := fresh data, freeProxyIndex := 0,
                    currentSourceIndex := sourceIndex, proxyFetchAttempts := 0\<rparr>))"
    have unfold: "fetchFreeProxyList cfg env sourceIndex s =
      (case tried of
         (Inr r, s2) \<Rightarrow> (Inr r, s2)
       | (Inl e, s2) \<Rightarrow>
           if sourceIndex + 1 < length (freeSources cfg)
           then fetchFreeProxyList cfg env (sourceIndex + 1) s2
           else (Inl (Error (''Failed to fetch proxies from all sources: '' @ message e)), s2))"
      apply (subst fetchFreeProxyList.simps)
      unfolding tried_def fresh_def s1_def src_def Let_def
      using False by simp
    have s1: "fetched s (Inl e) s1" for e by (simp add: s1_def fetched_emit)
    have used1: "usedProxies s1 = usedProxies s" by (simp add: s1_def emit_def)
    have tried_ok: "fetched s (fst tried) (snd tried)"
    proof (cases "fetchFromUrl env (now s) (url src)")
      case (Inl e)
      then show ?thesis using s1 by (simp add: tried_def)
    next
      case (Inr data)
      show ?thesis
      proof (cases "fresh data = []")
        case True
        have "fetched s1 (fst (fetchFreeProxyList cfg env (sourceIndex + 1) s1))
                (snd (fetchFreeProxyList cfg env (sourceIndex + 1) s1))"
          using "1.IH"(1)[OF False refl refl Inr[unfolded src_def] refl refl _ ld] True
          by (simp add: fresh_def s1_def src_def)
        with s1 show ?thesis using Inr True by (auto simp: tried_def intro: fetched_trans)
      next
        case False
        have "distinct (parseLines data)" using ld Inr by (auto simp: listsDistinct_def)
        then have "distinct (map getProxyId (map (lineProxy src) (parseLines data)))"
          by (simp only: lineProxy_ids[OF ballI[OF parseLines_nonempty]])
        then have d: "distinct (map getProxyId (fresh data))"
          unfolding fresh_def by (rule distinct_filter_ids)
        have n: "\<forall>p \<in> set (fresh data). getProxyId p \<notin> usedProxies s"
          using used1 by (auto simp: fresh_def)
        show ?thesis using Inr False d n used1
          by (simp add: tried_def fetched_def s1_def emit_def)
      qed
    qed
    obtain r s2 where t: "tried = (r, s2)" by (cases tried)
    show ?thesis
    proof (cases r)
      case (Inr ps)
      then show ?thesis using t tried_ok by (simp add: unfold)
    next
      case (Inl e)
      show ?thesis
      proof (cases "sourceIndex + 1 < length (freeSources cfg)")
        case True
        have "tried = (Inl e, s2)" using t Inl by simp
        note orig = this[unfolded tried_def fresh_def s1_def src_def, symmetric]
        have "fetched s2 (fst (fetchFreeProxyList cfg env (sourceIndex + 1) s2))
                (snd (fetchFreeProxyList cfg env (sourceIndex + 1) s2))"
          by (rule "1.IH"(2)[unfolded Let_def, OF False refl refl refl orig refl True ld])
        moreover have "fetched s (Inl e) s2" using tried_ok t Inl by simp
        ultimately show ?thesis using t Inl True by (auto simp: unfold intro: fetched_trans)
      next
        case False
        then show ?thesis using t Inl tried_ok by (auto simp: unfold intro: fetched_Inl)
      qed
    qed
  qed
qed

lemma fresh_rest:
  assumes "distinct (map f (x # rest))" "\<forall>p \<in> set (x # rest). f p \<notin> U"
  shows "\<forall>p \<in> set rest. f p \<notin> insert (f x) U"
proof
  fix p assume p: "p \<in> set rest"
  then have "f p \<in> f ` set rest" by (rule imageI)
  moreover have "f x \<notin> f ` set rest" using assms(1) by simp
  ultimately have "f p \<noteq> f x" by metis
  moreover have "f p \<notin> U" using assms(2) p by simp
  ultimately show "f p \<notin> insert (f x) U" by simp
qed

lemma poolFresh_take_rotate:
  assumes "distinct (map f (drop i xs))" "\<forall>p \<in> set (drop i xs). f p \<notin> U" "i < length xs"
  shows "f (xs ! i) \<notin> U" "distinct (map f (drop (Suc i) xs))"
    "\<forall>p \<in> set (drop (Suc i) xs). f p \<notin> insert (f (xs ! i)) U"
proof -
  have d: "drop i xs = xs ! i # drop (Suc i) xs" using assms(3) by (simp add: Cons_nth_drop_Suc)
  have a: "distinct (map f (xs ! i # drop (Suc i) xs))" using assms(1) by (simp only: d)
  have b: "\<forall>p \<in> set (xs ! i # drop (Suc i) xs). f p \<notin> U" using assms(2) by (simp only: d)
  show "f (xs ! i) \<notin> U" using b by simp
  show "distinct (map f (drop (Suc i) xs))" using a by simp
  show "\<forall>p \<in> set (drop (Suc i) xs). f p \<notin> insert (f (xs ! i)) U" using a b by (rule fresh_rest)
qed

lemma poolFresh_take_random:
  assumes "distinct (map f xs)" "\<forall>p \<in> set xs. f p \<notin> U" "i < length xs"
  shows "f (xs ! i) \<notin> U" "distinct (map f (spliceOut i xs))"
    "\<forall>p \<in> set (spliceOut i xs). f p \<notin> insert (f (xs ! i)) U"
proof -
  have d: "xs = take i xs @ xs ! i # drop (Suc i) xs" using assms(3) by (rule id_take_nth_drop)
  have "distinct (map f (take i xs @ xs ! i # drop (Suc i) xs))" using assms(1) by (simp only: d[symmetric])
  then have a: "distinct (map f (xs ! i # spliceOut i xs))" by (auto simp: spliceOut_def)
  have "\<forall>p \<in> set (take i xs @ xs ! i # drop (Suc i) xs). f p \<notin> U" using assms(2) by (simp only: d[symmetric])
  then have b: "\<forall>p \<in> set (xs ! i # spliceOut i xs). f p \<notin> U" by (auto simp: spliceOut_def)
  show "f (xs ! i) \<notin> U" using b by simp
  show "distinct (map f (spliceOut i xs))" using a by simp
  show "\<forall>p \<in> set (spliceOut i xs). f p \<notin> insert (f (xs ! i)) U" using a b by (rule fresh_rest)
qed

lemma takeFreeProxy_taken:
  assumes "poolFresh cfg s" "takeFreeProxy cfg env s = (r, s')"
  shows "poolFresh cfg s' \<and> taken s r s'"
proof (cases "freeRotateProxies cfg")
  case True
  show ?thesis
  proof (cases "freeProxyIndex s < length (freeProxyList s)")
    case inRange: True
    have pf: "distinct (map getProxyId (drop (freeProxyIndex s) (freeProxyList s)))"
      "\<forall>p \<in> set (drop (freeProxyIndex s) (freeProxyList s)). getProxyId p \<notin> usedProxies s"
      using assms(1) True by (simp_all add: poolFresh_def remainingPool_def)
    note k = poolFresh_take_rotate[OF pf inRange]
    show ?thesis using assms(2) True inRange k
      by (auto simp: takeFreeProxy_def Let_def emit_def poolFresh_def remainingPool_def taken_def)
  next
    case False
    then show ?thesis using assms True
      by (auto simp: takeFreeProxy_def poolFresh_def remainingPool_def taken_def)
  qed
next
  case False
  show ?thesis
  proof (cases "freeProxyList s = []")
    case True
    then show ?thesis using assms False
      by (auto simp: takeFreeProxy_def Let_def emit_def poolFresh_def remainingPool_def taken_def)
  next
    case nonEmpty: False
    define i where "i = mathRandom env (now s) mod length (freeProxyList s)"
    have i: "i < length (freeProxyList s)" using nonEmpty by (simp add: i_def)
    have pf: "distinct (map getProxyId (freeProxyList s))"
      "\<forall>p \<in> set (freeProxyList s). getProxyId p \<notin> usedProxies s"
      using assms(1) False by (simp_all add: poolFresh_def remainingPool_def)
    note k = poolFresh_take_random[OF pf i]
    show ?thesis using assms(2) False nonEmpty k
      by (auto simp: takeFreeProxy_def Let_def emit_def poolFresh_def remainingPool_def taken_def
          i_def[symmetric])
  qed
qed

lemma getNextFreeProxy_taken:
  assumes ld: "listsDistinct env" and pf: "poolFresh cfg s"
    and run: "getNextFreeProxy cfg env s = (r, s')"
  shows "poolFresh cfg s' \<and> taken s r s'"
proof (cases "freeProxyList s = [] \<or> freeProxyIndex s \<ge> length (freeProxyList s)")
  case False
  then have "takeFreeProxy cfg env s = (r, s')" using run by (simp add: getNextFreeProxy_def)
  then show ?thesis using pf by (rule takeFreeProxy_taken[rotated])
next
  case True
  define s1 where "s1 = s\<lparr>proxyFetchAttempts := proxyFetchAttempts s + 1\<rparr>"
  have pf1: "poolFresh cfg s1" using pf by (auto simp: poolFresh_def remainingPool_def s1_def split: if_splits)
  have u1: "usedProxies s1 = usedProxies s" by (simp add: s1_def)
  define nxt where "nxt = (currentSourceIndex s1 + 1) mod length (freeSources cfg)"
  obtain q s2 where F: "fetchFreeProxyList cfg env nxt s1 = (q, s2)"
    by (cases "fetchFreeProxyList cfg env nxt s1")
  have f: "fetched s1 q s2" using fetchFreeProxyList_fetched[OF ld, of s1 cfg nxt] F by simp
  note step = run[unfolded getNextFreeProxy_def Let_def, folded s1_def, folded nxt_def]
  show ?thesis
  proof (cases "proxyFetchAttempts s1 \<ge> MAX_FETCH_ATTEMPTS \<or> freeSources cfg = []")
    case stop: True
    then have "\<exists>e. r = Inl e \<and> s' = s1" using step True by (auto split: if_splits)
    then show ?thesis using pf1 u1 by (auto simp: taken_def)
  next
    case False
    then have step2: "(case (q, s2) of (Inl e, s2) \<Rightarrow> (Inl (Error (''Failed to fetch new proxies: '' @ message e)), s2)
                                   | (Inr _, s2) \<Rightarrow> takeFreeProxy cfg env s2) = (r, s')"
      using step True F by (simp split: if_splits)
    show ?thesis
    proof (cases q)
      case (Inl e)
      then have "poolFresh cfg s2" "usedProxies s2 = usedProxies s"
        using f pf1 u1 by (auto simp: fetched_def poolFresh_def remainingPool_def split: if_splits)
      then show ?thesis using step2 Inl by (auto simp: taken_def)
    next
      case (Inr ps)
      then have t: "takeFreeProxy cfg env s2 = (r, s')" using step2 by simp
      have pf2: "poolFresh cfg s2" and u2: "usedProxies s2 = usedProxies s"
        using f Inr u1 by (auto simp: fetched_def poolFresh_def remainingPool_def split: if_splits)
      from takeFreeProxy_taken[OF pf2 t] show ?thesis using u2 by (cases r) (auto simp: taken_def)
    qed
  qed
qed

lemma repeatNextFree_distinct:
  assumes ld: "listsDistinct env"
  shows "poolFresh cfg s \<Longrightarrow>
         distinct (map getProxyId (rights (fst (repeatNextFree cfg env n s)))) \<and>
         (\<forall>p \<in> set (rights (fst (repeatNextFree cfg env n s))). getProxyId p \<notin> usedProxies s)"
proof (induction n arbitrary: s)
  case 0
  then show ?case by simp
next
  case (Suc n)
  obtain r s1 where g: "getNextFreeProxy cfg env s = (r, s1)" by (cases "getNextFreeProxy cfg env s")
  obtain rs s2 where rest: "repeatNextFree cfg env n s1 = (rs, s2)" by (cases "repeatNextFree cfg env n s1")
  from getNextFreeProxy_taken[OF ld Suc.prems g] have pf1: "poolFresh cfg s1" and tk: "taken s r s1" by auto
  from Suc.IH[OF pf1] rest have ih: "distinct (map getProxyId (rights rs))"
    "\<forall>p \<in> set (rights rs). getProxyId p \<notin> usedProxies s1" by auto
  show ?case
  proof (cases r)
    case (Inl e)
    then show ?thesis using g rest ih tk by (auto simp: taken_def)
  next
    case (Inr p)
    then show ?thesis using g rest ih tk by (auto simp: taken_def)
  qed
qed

text \<open>
  When no listing repeats a line, the records that \<^verbatim>\<open>getNextFreeProxy\<close> hands out in
  any number of calls, across refetches and under both consumption policies, have pairwise
  different identities: the repeated line is the only way to a repeat within one module
  instance.
\<close>

lemma no_repeat_without_duplicate_lines:
  assumes "listsDistinct env"
  shows "distinct (map getProxyId (rights (fst (repeatNextFree cfg env n (initialGlobals cfg)))))"
proof -
  have "poolFresh cfg (initialGlobals cfg)"
    by (simp add: poolFresh_def remainingPool_def initialGlobals_def)
  from repeatNextFree_distinct[OF assms this] show ?thesis by simp
qed

text \<open>The same within one work unit, over its attempts.\<close>

lemma acquired_append [simp]: "acquired (xs @ ys) = acquired xs @ acquired ys"
  by (induction xs rule: acquired.induct) auto

lemma isFetch_acquired: "list_all isFetch es \<Longrightarrow> acquired es = []"
  by (induction es rule: acquired.induct) auto

lemma freshlyTaken_append:
  assumes "freshlyTaken s es1 s1" "freshlyTaken s1 es2 s2"
  shows "freshlyTaken s (es1 @ es2) s2"
proof -
  have a: "getProxyId ` set (acquired es1) \<subseteq> usedProxies s1"
    and b: "getProxyId ` set (acquired es2) \<inter> usedProxies s1 = {}"
    using assms by (auto simp: freshlyTaken_def)
  have "getProxyId ` set (acquired es1) \<inter> getProxyId ` set (acquired es2) = {}"
    using a b by blast
  moreover have "getProxyId ` set (acquired es1) \<subseteq> usedProxies s2 - usedProxies s"
    "getProxyId ` set (acquired es2) \<subseteq> usedProxies s2 - usedProxies s"
    "usedProxies s \<subseteq> usedProxies s2"
    using assms unfolding freshlyTaken_def by blast+
  ultimately show ?thesis using assms by (simp add: freshlyTaken_def image_Un)
qed

lemma poolFresh_emit [simp]: "poolFresh cfg (emit e s) = poolFresh cfg s"
  by (simp add: poolFresh_def remainingPool_def emit_def)

lemma getNextFreeProxy_fresh:
  assumes "listsDistinct env" "poolFresh cfg s" "getNextFreeProxy cfg env s = (r, s')"
  shows "poolFresh cfg s' \<and> (\<exists>es. trace s' = trace s @ es \<and> freshlyTaken s es s')"
proof -
  from getNextFreeProxy_taken[OF assms] have pf: "poolFresh cfg s'" and tk: "taken s r s'" by auto
  from getNextFreeProxy_handsOut[OF assms(3)] obtain es where
    es: "list_all isFetch es" "trace s' = trace s @ es @ (case r of Inl e \<Rightarrow> [] | Inr p \<Rightarrow> [Acquired p])"
    by (auto simp: handsOut_def)
  show ?thesis
  proof (cases r)
    case (Inl e)
    then show ?thesis using pf tk es
      by (auto simp: freshlyTaken_def taken_def isFetch_acquired)
  next
    case (Inr p)
    then have "trace s' = trace s @ (es @ [Acquired p])" using es(2) by simp
    moreover have "freshlyTaken s (es @ [Acquired p]) s'"
      using Inr tk es(1) by (auto simp: freshlyTaken_def taken_def isFetch_acquired)
    ultimately show ?thesis using pf by blast
  qed
qed

lemma attempt_fresh:
  assumes "listsDistinct env" "poolFresh cfg s" "proxyMode s = ModeFreeProxyList"
    and "attempt cfg env target n s = (r, s')"
  shows "poolFresh cfg s' \<and> (\<exists>es. trace s' = trace s @ es \<and> freshlyTaken s es s')"
proof -
  obtain q s1 where g: "getNextFreeProxy cfg env s = (q, s1)" by (cases "getNextFreeProxy cfg env s")
  from getNextFreeProxy_fresh[OF assms(1,2) g] obtain es where
    pf: "poolFresh cfg s1" and es: "trace s1 = trace s @ es" "freshlyTaken s es s1" by auto
  have np: "nextProxy cfg env s = (map_sum id Some q, s1)"
    using g assms(3) by (cases q) (simp_all add: nextProxy_def)
  from assms(4) show ?thesis
  proof (cases rule: attempt_cases)
    case (noProxy e)
    then show ?thesis using np pf es by auto
  next
    case (badOptions cp e)
    then show ?thesis using np pf es by auto
  next
    case (launched cp s2 a)
    then have s2: "s2 = s1" using np by simp
    have "trace s' = trace s @ (es @ [Launch cp a])" using launched(3) s2 es(1) by (simp add: emit_def)
    moreover have "freshlyTaken s (es @ [Launch cp a]) s'"
      using es(2) launched(3) s2 by (simp add: freshlyTaken_def emit_def)
    moreover have "poolFresh cfg s'" using pf launched(3) s2 by simp
    ultimately show ?thesis by blast
  qed
qed

lemma scrapeWithRetry_fresh:
  "listsDistinct env \<Longrightarrow> poolFresh cfg s \<Longrightarrow> proxyMode s = ModeFreeProxyList \<Longrightarrow>
   scrapeWithRetry cfg env target n s = (r, s') \<Longrightarrow>
   poolFresh cfg s' \<and> (\<exists>es. trace s' = trace s @ es \<and> freshlyTaken s es s')"
proof (induction cfg env target n s arbitrary: r s' rule: scrapeWithRetry.induct)
  case (1 cfg env target retryCount s)
  obtain q s1 where a: "attempt cfg env target retryCount s = (q, s1)"
    by (cases "attempt cfg env target retryCount s")
  from attempt_fresh[OF "1.prems"(1,2,3) a] obtain es1 where
    pf1: "poolFresh cfg s1" and es1: "trace s1 = trace s @ es1" "freshlyTaken s es1 s1" by auto
  from attempt_unit[OF a] have m1: "proxyMode s1 = proxyMode s" by simp
  note run = "1.prems"(4)[unfolded scrapeWithRetry.simps[of cfg env target retryCount s] a]
  have stop: "s' = s1 \<Longrightarrow> ?case" using pf1 es1 by blast
  show ?case
  proof (cases q)
    case (Inr status)
    then show ?thesis using run stop by auto
  next
    case (Inl error)
    show ?thesis
    proof (cases "isRetryable error \<and> retryCount < maxRetries cfg")
      case False
      then show ?thesis using run Inl stop by auto
    next
      case True
      define s2 where "s2 = emit (Sleep (arrayGet (backoffDelays cfg) retryCount)) s1"
      have rec: "scrapeWithRetry cfg env target (retryCount + 1) s2 = (r, s')"
        using run Inl True by (simp add: Let_def s2_def)
      have pf2: "poolFresh cfg s2" using pf1 by (simp add: s2_def)
      have m2: "proxyMode s2 = ModeFreeProxyList" using m1 "1.prems"(3) by (simp add: s2_def emit_def)
      from "1.IH"[OF a[symmetric] Inl True refl s2_def "1.prems"(1) pf2 m2 rec] obtain es2 where
        pf: "poolFresh cfg s'" and es2: "trace s' = trace s2 @ es2" "freshlyTaken s2 es2 s'" by auto
      have f12: "freshlyTaken s (es1 @ [Sleep (arrayGet (backoffDelays cfg) retryCount)]) s2"
        using es1(2) by (simp add: freshlyTaken_def s2_def emit_def)
      have "trace s' = trace s @ ((es1 @ [Sleep (arrayGet (backoffDelays cfg) retryCount)]) @ es2)"
        using es1(1) es2(1) by (simp add: s2_def emit_def)
      moreover have "freshlyTaken s ((es1 @ [Sleep (arrayGet (backoffDelays cfg) retryCount)]) @ es2) s'"
        using f12 es2(2) by (rule freshlyTaken_append)
      ultimately show ?thesis using pf by blast
    qed
  qed
qed

text \<open>
  What does hold of the attempts of a work unit under a pooled proxy mode: every browser
  launch, on the first attempt and on each retry, comes directly after a call of the pool
  manager that handed out a record, and is given that record; and with the free proxy
  lists, when no listing repeats a line, the records handed out to the attempts of a unit
  have pairwise different identities.
\<close>

lemma launch_follows_acquisition:
  assumes "proxyMode s = ModeProxifly \<or> proxyMode s = ModeFreeProxyList"
  shows "freshPerLaunch (newEvents s (snd (scrapeWithRetry cfg env target retryCount s)))"
proof -
  obtain r s' where run: "scrapeWithRetry cfg env target retryCount s = (r, s')"
    by (cases "scrapeWithRetry cfg env target retryCount s")
  from scrapeWithRetry_unit[OF run] obtain es where "trace s' = trace s @ es" "unitTrace (proxyMode s) es"
    by auto
  then show ?thesis using assms run by (simp add: unitTrace_def pooled_def seg_def)
qed

lemma unit_no_repeat_without_duplicate_lines:
  assumes "proxyMode s = ModeFreeProxyList" "listsDistinct env" "poolFresh cfg s"
  shows "distinct (map getProxyId
           (acquired (newEvents s (snd (scrapeWithRetry cfg env target retryCount s)))))"
proof -
  obtain r s' where run: "scrapeWithRetry cfg env target retryCount s = (r, s')"
    by (cases "scrapeWithRetry cfg env target retryCount s")
  from scrapeWithRetry_fresh[OF assms(2,3,1) run] obtain es' where
    "trace s' = trace s @ es'" "freshlyTaken s es' s'" by auto
  then show ?thesis using run by (simp add: freshlyTaken_def)
qed

section \<open>The claims\<close>

text \<open>
  C1, at a failing input. A source whose listing has the line \<open>1.1.1.1:80\<close> twice:
  the fetcher filters against the registry only, not within the listing, so after the
  start of a run two calls of \<^verbatim>\<open>getNextFreeProxy\<close> in a row return records of the
  same identity.
\<close>

theorem duplicate_lines_repeat_identity:
  "map (map_sum message getProxyId)
     (fst (repeatNextFree CONFIG (servingEnv duplicateListing (Responded 200 None)) 2
            (initializeProxies CONFIG (servingEnv duplicateListing (Responded 200 None))
               (initialGlobals CONFIG))))
   = [Inr ''1.1.1.1:80'', Inr ''1.1.1.1:80'']"
  by (simp add: pool_defs string_defs CONFIG_def servingEnv_def duplicateListing_def repeatNextFree_numeral)

text \<open>
  C2, at a failing input. Two requests in one batch of two workers, every source serving
  the single proxy \<open>1.1.1.1:80\<close>: each worker fills and consumes a pool of its own
  module instance, so worker 1 and worker 2 both take \<open>1.1.1.1:80\<close>, both succeed, and
  the registry of the main thread is still empty at the end of the run.
\<close>

theorem workers_replicate_registry:
  "workerProxies twoWorkerConfig (\<lambda>w. servingEnv oneProxy (Responded 200 None)) videoUrl 1 = [''1.1.1.1:80'']
   \<and> workerProxies twoWorkerConfig (\<lambda>w. servingEnv oneProxy (Responded 200 None)) videoUrl 2 = [''1.1.1.1:80'']
   \<and> fst (runConcurrentScraping twoWorkerConfig (servingEnv oneProxy (Responded 200 None))
            (\<lambda>w. servingEnv oneProxy (Responded 200 None)) (\<lambda>w. None) videoUrl
            (initialGlobals twoWorkerConfig))
       = \<lparr>successful = 2, failed = 0, total = 2\<rparr>
   \<and> usedProxies (snd (runConcurrentScraping twoWorkerConfig (servingEnv oneProxy (Responded 200 None))
            (\<lambda>w. servingEnv oneProxy (Responded 200 None)) (\<lambda>w. None) videoUrl
            (initialGlobals twoWorkerConfig)))
       = {}"
  by (simp add: run_defs unit_defs pool_defs string_defs twoWorkerConfig_def CONFIG_def servingEnv_def
      oneProxy_def)

text \<open>
  C3, at a failing input. Every source serves the one proxy \<open>1.1.1.1:80\<close>. After it
  is used, a call of \<^verbatim>\<open>getNextFreeProxy\<close> fails at once, after a single fetch, with
  the error of the fetcher; the counter grows by one for each such call, and the fifth
  call in a row throws the error of the ceiling without fetching: four fetches in all.
\<close>

theorem exhaustion_after_one_fetch:
  "map (map_sum message getProxyId)
     (fst (repeatNextFree CONFIG (servingEnv oneProxy (Responded 200 None)) 6
            (initializeProxies CONFIG (servingEnv oneProxy (Responded 200 None))
               (initialGlobals CONFIG))))
   = [Inr ''1.1.1.1:80'',
      Inl ''Failed to fetch new proxies: Failed to fetch proxies from all sources: All free proxy list sources exhausted'',
      Inl ''Failed to fetch new proxies: Failed to fetch proxies from all sources: All free proxy list sources exhausted'',
      Inl ''Failed to fetch new proxies: Failed to fetch proxies from all sources: All free proxy list sources exhausted'',
      Inl ''Failed to fetch new proxies: Failed to fetch proxies from all sources: All free proxy list sources exhausted'',
      Inl ''Unable to fetch new unique proxies after 5 attempts'']
   \<and> length (netGets (newEvents
         (initializeProxies CONFIG (servingEnv oneProxy (Responded 200 None)) (initialGlobals CONFIG))
         (snd (repeatNextFree CONFIG (servingEnv oneProxy (Responded 200 None)) 2
            (initializeProxies CONFIG (servingEnv oneProxy (Responded 200 None))
               (initialGlobals CONFIG)))))) = 1
   \<and> length (netGets (newEvents
         (initializeProxies CONFIG (servingEnv oneProxy (Responded 200 None)) (initialGlobals CONFIG))
         (snd (repeatNextFree CONFIG (servingEnv oneProxy (Responded 200 None)) 6
            (initializeProxies CONFIG (servingEnv oneProxy (Responded 200 None))
               (initialGlobals CONFIG)))))) = 4"
  by (simp add: pool_defs string_defs CONFIG_def servingEnv_def oneProxy_def repeatNextFree_numeral newEvents_def)



text \<open>
  C5, at a failing input. A page that answers HTTP 405, which is neither 429 nor a 5xx
  status: the message \<open>HTTP 405\<close> contains the character 5, the unit is retried five
  times with the whole backoff schedule, and only then fails.
\<close>

theorem client_error_is_retried:
  "fst (scrapeWithRetry directConfig (servingEnv [] (Responded 405 None)) videoUrl 0
          (initialGlobals directConfig)) = Failed ''HTTP 405''
   \<and> sleeps (trace (snd (scrapeWithRetry directConfig (servingEnv [] (Responded 405 None)) videoUrl 0
          (initialGlobals directConfig))))
       = [Some 1000, Some 3000, Some 5000, Some 9000, Some 15000]"
  by (simp add: unit_defs pool_defs string_defs directConfig_def CONFIG_def servingEnv_def)

text \<open>
  C6, as the code has it. Nothing is validated before dispatch and no configuration aborts
  the run: for every configuration, also one whose backoff schedule is shorter than
  \<open>maxRetries\<close> or whose Proxifly API key is missing, the sequential dispatcher starts
  the requests \<open>1, ..., totalRequests\<close> and the concurrent one spawns the workers
  \<open>1, ..., totalRequests\<close>. With no API key in proxifly mode the first fetch throws and
  the dispatcher sets its proxy mode to none. The retries of a work unit sleep
  \<open>backoffDelays[0], backoffDelays[1], ...\<close>, read by index up to \<open>maxRetries\<close>
  whatever the length of the schedule, so that past its end the delay is undefined.
\<close>

theorem no_validation_before_dispatch:
  "dispatched (newEvents s (snd (runSequentialScraping cfg env target s))) = [1..<totalRequests cfg + 1]
   \<and> (1 < maxConcurrent cfg \<longrightarrow>
        dispatched (newEvents s (snd (runConcurrentScraping cfg env wenv werr target s)))
          = [1..<totalRequests cfg + 1])
   \<and> (proxyMode s = ModeProxifly \<and> proxiflyApiKey cfg = [] \<longrightarrow>
        proxyMode (initializeProxies cfg env s) = ModeNone)
   \<and> (\<exists>k. k \<le> maxRetries cfg \<and>
          sleeps (newEvents s (snd (scrapeWithRetry cfg env target 0 s)))
            = map (arrayGet (backoffDelays cfg)) [0..<k])"
proof -
  obtain res s2 where sq: "runSequentialScraping cfg env target s = (res, s2)"
    by (cases "runSequentialScraping cfg env target s")
  obtain res' s3 where cc: "runConcurrentScraping cfg env wenv werr target s = (res', s3)"
    by (cases "runConcurrentScraping cfg env wenv werr target s")
  obtain r s1 where u: "scrapeWithRetry cfg env target 0 s = (r, s1)"
    by (cases "scrapeWithRetry cfg env target 0 s")
  have a: "dispatched (newEvents s (snd (runSequentialScraping cfg env target s))) = [1..<totalRequests cfg + 1]"
    using runSequentialScraping_run(3)[OF sq] sq by simp
  have b: "1 < maxConcurrent cfg \<longrightarrow>
        dispatched (newEvents s (snd (runConcurrentScraping cfg env wenv werr target s)))
          = [1..<totalRequests cfg + 1]"
    using runConcurrentScraping_run(3)[OF cc] cc by simp
  have c: "proxyMode s = ModeProxifly \<and> proxiflyApiKey cfg = [] \<longrightarrow>
        proxyMode (initializeProxies cfg env s) = ModeNone"
    by (simp add: initializeProxies_def fetchProxiflyProxies.simps)
  have d: "\<exists>k. k \<le> maxRetries cfg \<and>
          sleeps (newEvents s (snd (scrapeWithRetry cfg env target 0 s)))
            = map (arrayGet (backoffDelays cfg)) [0..<k]"
    using scrapeWithRetry_sleeps[OF u] u by simp
  show ?thesis using a b c d by blast
qed

theorem no_validation_before_dispatch_witness:
  "1 < maxConcurrent (CONFIG\<lparr>configProxyMode := ModeProxifly\<rparr>)
   \<and> proxyMode (initialGlobals (CONFIG\<lparr>configProxyMode := ModeProxifly\<rparr>)) = ModeProxifly
   \<and> proxiflyApiKey (CONFIG\<lparr>configProxyMode := ModeProxifly\<rparr>) = []
   \<and> proxyMode (initializeProxies (CONFIG\<lparr>configProxyMode := ModeProxifly\<rparr>)
                  (servingEnv [] (Responded 200 None))
                  (initialGlobals (CONFIG\<lparr>configProxyMode := ModeProxifly\<rparr>))) = ModeNone
   \<and> length (dispatched (newEvents (initialGlobals (CONFIG\<lparr>configProxyMode := ModeProxifly\<rparr>))
        (snd (runConcurrentScraping (CONFIG\<lparr>configProxyMode := ModeProxifly\<rparr>)
               (servingEnv [] (Responded 200 None)) (\<lambda>w. servingEnv [] (Responded 200 None)) (\<lambda>w. None)
               videoUrl (initialGlobals (CONFIG\<lparr>configProxyMode := ModeProxifly\<rparr>)))))) = 250"
proof -
  let ?cfg = "CONFIG\<lparr>configProxyMode := ModeProxifly\<rparr>"
  have h1: "1 < maxConcurrent ?cfg" by (simp add: CONFIG_def)
  have h2: "proxyMode (initialGlobals ?cfg) = ModeProxifly" by (simp add: initialGlobals_def)
  have h3: "proxiflyApiKey ?cfg = []" by (simp add: CONFIG_def)
  have t: "totalRequests ?cfg = 250" by (simp add: CONFIG_def)
  show ?thesis
    using h1 h2 h3 t
      no_validation_before_dispatch[of "initialGlobals ?cfg" ?cfg "servingEnv [] (Responded 200 None)" videoUrl
        "\<lambda>w. servingEnv [] (Responded 200 None)" "\<lambda>w. None"]
    by (simp del: upt_Suc)
qed

text \<open>
  C6, as stated, fails. With a schedule of one delay and \<open>maxRetries = 2\<close> the request
  is dispatched and the second retry sleeps an undefined delay; in proxifly mode with no
  API key the request is dispatched and served over a direct connection.
\<close>

theorem fail_fast_counterexample:
  "length (backoffDelays shortScheduleConfig) < maxRetries shortScheduleConfig
   \<and> trace (snd (runSequentialScraping shortScheduleConfig (servingEnv [] (Threw timeoutError)) videoUrl
                   (initialGlobals shortScheduleConfig)))
      = [Request 1, Launch None None, Sleep (Some 100), Launch None None, Sleep None, Launch None None]
   \<and> configProxyMode noKeyConfig = ModeProxifly \<and> proxiflyApiKey noKeyConfig = []
   \<and> trace (snd (runSequentialScraping noKeyConfig (servingEnv [] (Responded 200 None)) videoUrl
                   (initialGlobals noKeyConfig)))
      = [Request 1, Launch None None]
   \<and> fst (runSequentialScraping noKeyConfig (servingEnv [] (Responded 200 None)) videoUrl
             (initialGlobals noKeyConfig))
      = \<lparr>successful = 1, failed = 0, total = 1\<rparr>"
  by (simp add: runSequentialScraping_def initializeProxies_def initialGlobals_def
        sequentialLoop.simps scrapeWithRetry.simps attempt_def nextProxy_def getBrowserOptions_def
        isRetryable_def emit_def now_def pause_def arrayGet_def tally_def emptyResults_def Let_def
        fetchProxiflyProxies.simps shortScheduleConfig_def noKeyConfig_def CONFIG_def servingEnv_def
        timeoutError_def)

text \<open>
  C7. A call of \<^verbatim>\<open>scrapeWithRetry\<close> returns the result object of the last attempt
  of its course: the attempts before it failed retryably and were retried, the last one
  is not retried, and the result is the success with the status of that attempt when it
  returned, and the failure with the message of the error it threw when it threw; a
  success has a status below 400. So a unit all of whose attempts throw ends in the
  failed result, and the dispatchers count it and go on: when every page visit fails, the
  sequential dispatcher and, with \<open>maxConcurrent > 1\<close>, the concurrent one (whose
  workers post the result of \<^verbatim>\<open>scrapeWithRetry\<close>, or die) still handle every
  request and end with \<open>failed = total = totalRequests\<close> and \<open>successful = 0\<close>. Whatever
  fails, \<open>total\<close> and \<open>successful + failed\<close> end at \<open>totalRequests\<close>. In a run of two
  requests whose first unit uses up its five retries while the target is down, and whose
  second unit finds it up again, the counters end at one success and one failure.
\<close>

theorem typed_result_propagation:
  "(\<exists>k. n + k \<le> max n (maxRetries cfg)
        \<and> (\<forall>j<k. failsRetryably (fst (unitOutcome cfg env target j n s)))
        \<and> \<not> (failsRetryably (fst (unitOutcome cfg env target k n s)) \<and> n + k < maxRetries cfg)
        \<and> scrapeWithRetry cfg env target n s
            = (toResult (fst (unitOutcome cfg env target k n s)), snd (unitOutcome cfg env target k n s)))
   \<and> (case fst (scrapeWithRetry cfg env target n s) of
        Success status \<Rightarrow> status < 400
      | Failed msg \<Rightarrow> \<exists>k t e t'. attempt cfg env target k t = (Inl e, t') \<and> msg = message e)
   \<and> ((\<forall>t u a. visitFails (browse env t u a)) \<longrightarrow>
        (\<exists>msg. fst (scrapeWithRetry cfg env target n s) = Failed msg)
        \<and> fst (runSequentialScraping cfg env target s)
            = \<lparr>successful = 0, failed = totalRequests cfg, total = totalRequests cfg\<rparr>)
   \<and> total (fst (runSequentialScraping cfg env target s)) = totalRequests cfg
   \<and> successful (fst (runSequentialScraping cfg env target s))
       + failed (fst (runSequentialScraping cfg env target s)) = totalRequests cfg
   \<and> (1 < maxConcurrent cfg \<longrightarrow>
        total (fst (runConcurrentScraping cfg env wenv werr target s)) = totalRequests cfg
        \<and> successful (fst (runConcurrentScraping cfg env wenv werr target s))
            + failed (fst (runConcurrentScraping cfg env wenv werr target s)) = totalRequests cfg
        \<and> ((\<forall>w t u a. visitFails (browse (wenv w) t u a)) \<longrightarrow>
             fst (runConcurrentScraping cfg env wenv werr target s)
               = \<lparr>successful = 0, failed = totalRequests cfg, total = totalRequests cfg\<rparr>))
   \<and> fst (runSequentialScraping twoRequestConfig recoveringEnv videoUrl (initialGlobals twoRequestConfig))
       = \<lparr>successful = 1, failed = 1, total = 2\<rparr>"
proof -
  obtain r s1 where u: "scrapeWithRetry cfg env target n s = (r, s1)"
    by (cases "scrapeWithRetry cfg env target n s")
  have a: "case fst (scrapeWithRetry cfg env target n s) of
      Success status \<Rightarrow> status < 400
    | Failed msg \<Rightarrow> \<exists>k t e t'. attempt cfg env target k t = (Inl e, t') \<and> msg = message e"
    using scrapeWithRetry_result[OF u] u by (cases r) auto
  have b: "(\<forall>t u a. visitFails (browse env t u a)) \<longrightarrow>
        (\<exists>msg. fst (scrapeWithRetry cfg env target n s) = Failed msg)
        \<and> fst (runSequentialScraping cfg env target s)
            = \<lparr>successful = 0, failed = totalRequests cfg, total = totalRequests cfg\<rparr>"
  proof
    assume down: "\<forall>t u a. visitFails (browse env t u a)"
    from scrapeWithRetry_down[OF down, of cfg target n s]
    have "\<exists>msg. fst (scrapeWithRetry cfg env target n s) = Failed msg" by auto
    then show "(\<exists>msg. fst (scrapeWithRetry cfg env target n s) = Failed msg)
        \<and> fst (runSequentialScraping cfg env target s)
            = \<lparr>successful = 0, failed = totalRequests cfg, total = totalRequests cfg\<rparr>"
      using runSequentialScraping_down[OF down] by simp
  qed
  obtain res s2 where sq: "runSequentialScraping cfg env target s = (res, s2)"
    by (cases "runSequentialScraping cfg env target s")
  obtain res' s3 where cc: "runConcurrentScraping cfg env wenv werr target s = (res', s3)"
    by (cases "runConcurrentScraping cfg env wenv werr target s")
  have c: "total (fst (runSequentialScraping cfg env target s)) = totalRequests cfg"
    "successful (fst (runSequentialScraping cfg env target s))
       + failed (fst (runSequentialScraping cfg env target s)) = totalRequests cfg"
    using runSequentialScraping_run(1,2)[OF sq] sq by simp_all
  have d: "1 < maxConcurrent cfg \<longrightarrow>
        total (fst (runConcurrentScraping cfg env wenv werr target s)) = totalRequests cfg
        \<and> successful (fst (runConcurrentScraping cfg env wenv werr target s))
            + failed (fst (runConcurrentScraping cfg env wenv werr target s)) = totalRequests cfg
        \<and> ((\<forall>w t u a. visitFails (browse (wenv w) t u a)) \<longrightarrow>
             fst (runConcurrentScraping cfg env wenv werr target s)
               = \<lparr>successful = 0, failed = totalRequests cfg, total = totalRequests cfg\<rparr>)"
  proof
    assume "1 < maxConcurrent cfg"
    then have pos: "0 < maxConcurrent cfg" by simp
    show "total (fst (runConcurrentScraping cfg env wenv werr target s)) = totalRequests cfg
        \<and> successful (fst (runConcurrentScraping cfg env wenv werr target s))
            + failed (fst (runConcurrentScraping cfg env wenv werr target s)) = totalRequests cfg
        \<and> ((\<forall>w t u a. visitFails (browse (wenv w) t u a)) \<longrightarrow>
             fst (runConcurrentScraping cfg env wenv werr target s)
               = \<lparr>successful = 0, failed = totalRequests cfg, total = totalRequests cfg\<rparr>)"
      using runConcurrentScraping_run(1,2)[OF cc pos] cc runConcurrentScraping_down[OF _ pos, of wenv env werr target s]
      by simp
  qed
  have e: "fst (runSequentialScraping twoRequestConfig recoveringEnv videoUrl (initialGlobals twoRequestConfig))
       = \<lparr>successful = 1, failed = 1, total = 2\<rparr>"
    by (simp add: run_defs unit_defs pool_defs twoRequestConfig_def CONFIG_def recoveringEnv_def
        timeoutError_def)
  show ?thesis using scrapeWithRetry_course[of n cfg env target s] a b c d e by (intro conjI)
qed

theorem typed_result_propagation_witness:
  "1 < maxConcurrent CONFIG
   \<and> (\<forall>t u a. visitFails (browse (servingEnv [] (Threw timeoutError)) t u a))
   \<and> (\<exists>msg. fst (scrapeWithRetry CONFIG (servingEnv [] (Threw timeoutError)) videoUrl 0
                     (initialGlobals CONFIG)) = Failed msg)
   \<and> fst (runSequentialScraping CONFIG (servingEnv [] (Threw timeoutError)) videoUrl (initialGlobals CONFIG))
       = \<lparr>successful = 0, failed = 250, total = 250\<rparr>
   \<and> fst (runConcurrentScraping CONFIG (servingEnv [] (Threw timeoutError))
            (\<lambda>w. servingEnv [] (Threw timeoutError)) (\<lambda>w. None) videoUrl (initialGlobals CONFIG))
       = \<lparr>successful = 0, failed = 250, total = 250\<rparr>"
proof -
  have h: "1 < maxConcurrent CONFIG" by (simp add: CONFIG_def)
  have t: "totalRequests CONFIG = 250" by (simp add: CONFIG_def)
  have down: "\<forall>t u a. visitFails (browse (servingEnv [] (Threw timeoutError)) t u a)"
    by (simp add: servingEnv_def)
  show ?thesis
    using h t down typed_result_propagation[of 0 CONFIG "servingEnv [] (Threw timeoutError)" videoUrl
        "initialGlobals CONFIG" "\<lambda>w. servingEnv [] (Threw timeoutError)" "\<lambda>w. None"]
    by simp
qed



text \<open>
  C9, at a failing input. Proxifly mode with one retry, an API whose answer holds the
  record of \<open>1.1.1.1:80\<close> twice, and a target every visit of which times out: the
  pool manager is called before the attempt and again before the retry, and hands out the
  same record both times, so that the retry launches the browser with the proxy server
  \<open>https://1.1.1.1:80\<close> of the failed attempt. With the free proxy lists and a listing
  that has the line \<open>1.1.1.1:80\<close> twice, the attempt and its one retry are likewise
  given records of the same identity.
\<close>

theorem retry_reuses_failed_proxy:
  "trace (snd (scrapeWithRetry oneRetryKeyConfig repeatingApiEnv videoUrl 0 (initialGlobals oneRetryKeyConfig)))
     = [ApiCall,
        Acquired apiProxy, Launch (Some apiProxy) (Some ''https://1.1.1.1:80''), Sleep (Some 1000),
        Acquired apiProxy, Launch (Some apiProxy) (Some ''https://1.1.1.1:80'')]
   \<and> fst (scrapeWithRetry oneRetryKeyConfig repeatingApiEnv videoUrl 0 (initialGlobals oneRetryKeyConfig))
       = Failed ''Navigation timeout of 160000 ms exceeded''
   \<and> map getProxyId (acquired (trace (snd
         (scrapeWithRetry oneRetryConfig (servingEnv duplicateListing (Threw timeoutError)) videoUrl 0
            (initialGlobals oneRetryConfig)))))
       = [''1.1.1.1:80'', ''1.1.1.1:80'']
   \<and> sleeps (trace (snd
         (scrapeWithRetry oneRetryConfig (servingEnv duplicateListing (Threw timeoutError)) videoUrl 0
            (initialGlobals oneRetryConfig))))
       = [Some 1000]"
  by (simp add: unit_defs pool_defs string_defs oneRetryKeyConfig_def keyConfig_def oneRetryConfig_def
      CONFIG_def repeatingApiEnv_def servingEnv_def duplicateListing_def timeoutError_def apiProxy_def)

text \<open>
  C10, at a failing input. Proxifly mode with no API key, two requests, and a target that
  answers 200 to a direct visit. In the concurrent dispatcher the main thread falls back
  to no proxy, but each worker starts again from the mode written in the file, fails to
  get a proxy and launches no browser: both requests fail. The sequential dispatcher
  serves both requests over direct connections.
\<close>

theorem concurrent_fallback_not_seen_by_workers:
  "proxyMode (snd (runConcurrentScraping noKeyConcurrentConfig (servingEnv [] (Responded 200 None))
            (\<lambda>w. servingEnv [] (Responded 200 None)) (\<lambda>w. None) videoUrl
            (initialGlobals noKeyConcurrentConfig))) = ModeNone
   \<and> fst (runConcurrentScraping noKeyConcurrentConfig (servingEnv [] (Responded 200 None))
            (\<lambda>w. servingEnv [] (Responded 200 None)) (\<lambda>w. None) videoUrl
            (initialGlobals noKeyConcurrentConfig))
       = \<lparr>successful = 0, failed = 2, total = 2\<rparr>
   \<and> workerThread noKeyConcurrentConfig (servingEnv [] (Responded 200 None)) videoUrl
       = (Failed (''Failed to fetch new proxies: Proxifly API key is required when proxyMode is set to ''
                  @ quoted ''proxifly''),
          initialGlobals noKeyConcurrentConfig)
   \<and> fst (runSequentialScraping (noKeyConcurrentConfig\<lparr>maxConcurrent := 1\<rparr>)
            (servingEnv [] (Responded 200 None)) videoUrl
            (initialGlobals (noKeyConcurrentConfig\<lparr>maxConcurrent := 1\<rparr>)))
       = \<lparr>successful = 2, failed = 0, total = 2\<rparr>"
  by (simp add: run_defs unit_defs pool_defs string_defs noKeyConcurrentConfig_def CONFIG_def servingEnv_def)

end
